theory Spec2Isabelle
  imports Main "HOL-Library.Monad_Syntax"
begin

section \<open>Machine integers\<close>

text \<open>
  \<^verbatim>\<open>int\<close> has 32 bits. Where a sum or product of the source can leave the range the
  model wraps it around, as the compiled program does (the C++ standard leaves signed
  overflow undefined). Values that stay in range by construction are plain integers.
\<close>

definition wrap32 :: "int \<Rightarrow> int" where
  "wrap32 x = (x + 2147483648) mod 4294967296 - 2147483648"

section \<open>Quadrature::trapezoidal\<close>

text \<open>
  The operations on \<^verbatim>\<open>double\<close> belong to the machine, not to the program: they are the
  parameter \<open>D\<close>, a value of any type \<open>'d\<close> with the conversion from \<^verbatim>\<open>int\<close>, the
  literal \<^verbatim>\<open>0.5\<close> and the four operations. Nothing is assumed of them, so what is
  proved holds with rounding as with exact arithmetic. \<^verbatim>\<open>obj.func\<close> is the function \<open>f\<close>.
\<close>

record 'd double_ops =
  d_of_int :: "int \<Rightarrow> 'd"
  d_half :: 'd
  d_add :: "'d \<Rightarrow> 'd \<Rightarrow> 'd"
  d_sub :: "'d \<Rightarrow> 'd \<Rightarrow> 'd"
  d_mul :: "'d \<Rightarrow> 'd \<Rightarrow> 'd"
  d_div :: "'d \<Rightarrow> 'd \<Rightarrow> 'd"

text \<open>
  The loop \<^verbatim>\<open>for (int k = 0; k <= n+1; k++)\<close> with its accumulator \<^verbatim>\<open>result\<close>. Both
  \<^verbatim>\<open>n+1\<close> and \<^verbatim>\<open>k++\<close> can wrap, and the loop need not end: not returning is \<open>None\<close>.
\<close>

partial_function (option) trapezoidal_loop ::
  "'d double_ops \<Rightarrow> ('d \<Rightarrow> 'd) \<Rightarrow> 'd \<Rightarrow> 'd \<Rightarrow> int \<Rightarrow> int \<Rightarrow> 'd \<Rightarrow> 'd option" where
  "trapezoidal_loop D f a dx n k result =
     (if k \<le> wrap32 (n + 1) then
        (let x = d_add D a (d_mul D (d_of_int D k) dx);
             y = f x
         in if k = 0 \<or> k = n
            then trapezoidal_loop D f a dx n (wrap32 (k + 1)) (d_add D result (d_mul D (d_half D) y))
            else trapezoidal_loop D f a dx n (wrap32 (k + 1)) (d_add D result y))
      else Some result)"

declare trapezoidal_loop.simps [code]

text \<open>
  \<^verbatim>\<open>result = 0\<close>, \<^verbatim>\<open>dx = (b - a) / (n + 1)\<close>, the loop from \<^verbatim>\<open>k = 0\<close>, and
  \<^verbatim>\<open>result *= dx\<close>.
\<close>

definition trapezoidal :: "'d double_ops \<Rightarrow> ('d \<Rightarrow> 'd) \<Rightarrow> 'd \<Rightarrow> 'd \<Rightarrow> int \<Rightarrow> 'd option" where
  "trapezoidal D f a b n =
     (let dx = d_div D (d_sub D b a) (d_of_int D (wrap32 (n + 1)))
      in case trapezoidal_loop D f a dx n 0 (d_of_int D 0) of
           None \<Rightarrow> None
         | Some result \<Rightarrow> Some (d_mul D result dx))"

text \<open>
  The term of the sum for sample \<open>k\<close>: half the value of \<open>f\<close> at \<open>a + k * dx\<close> for
  \<open>k = 0\<close> and \<open>k = n\<close>, the value itself for every other \<open>k\<close>.
\<close>

definition sample :: "'d double_ops \<Rightarrow> ('d \<Rightarrow> 'd) \<Rightarrow> 'd \<Rightarrow> 'd \<Rightarrow> int \<Rightarrow> int \<Rightarrow> 'd" where
  "sample D f a dx n k =
     (if k = 0 \<or> k = n then d_mul D (d_half D) (f (d_add D a (d_mul D (d_of_int D k) dx)))
      else f (d_add D a (d_mul D (d_of_int D k) dx)))"

text \<open>
  The operations that compute nothing and build the expression: with them a call
  returns the expression the program evaluates, whatever the arithmetic of the machine.
\<close>

datatype sym = Var string | Half | Of_int int | Add sym sym | Sub sym sym | Mul sym sym
  | Div sym sym | Func sym

definition symbolic :: "sym double_ops" where
  "symbolic = \<lparr>d_of_int = Of_int, d_half = Half, d_add = Add, d_sub = Sub, d_mul = Mul, d_div = Div\<rparr>"

section \<open>The task function\<close>

definition func_cheap :: "int \<Rightarrow> int" where
  "func_cheap x = wrap32 (x + 1)"

text \<open>
  \<^verbatim>\<open>Sleep(100 * x)\<close> only takes time. Its argument is the product, wrapped, and
  converted to the unsigned 32-bit \<^verbatim>\<open>DWORD\<close>; \<^verbatim>\<open>Sleep\<close> returns after that many
  milliseconds unless the argument is \<^verbatim>\<open>INFINITE\<close>.
\<close>

definition Sleep_argument :: "int \<Rightarrow> int" where
  "Sleep_argument x = wrap32 (100 * x) mod 4294967296"

definition INFINITE :: int where
  "INFINITE = 4294967295"

text \<open>The value \<open>func_expensive\<close> returns, once \<^verbatim>\<open>Sleep\<close> has returned.\<close>

definition func_expensive :: "int \<Rightarrow> int" where
  "func_expensive x = func_cheap x"

section \<open>Vectors\<close>

text \<open>
  \<^verbatim>\<open>vector<int> v(n)\<close> holds \<open>n\<close> zeros; a negative \<open>n\<close> converts to a size beyond
  \<^verbatim>\<open>max_size()\<close> and the constructor throws. \<^verbatim>\<open>v[i]\<close> outside the vector is undefined
  in C++. Both are the value \<open>None\<close> here.
\<close>

definition new_vector :: "int \<Rightarrow> int list option" where
  "new_vector n = (if n < 0 then None else Some (replicate (nat n) 0))"

definition vec_get :: "int list \<Rightarrow> int \<Rightarrow> int option" where
  "vec_get xs i = (if 0 \<le> i \<and> i < int (length xs) then Some (xs ! nat i) else None)"

definition vec_set :: "int list \<Rightarrow> int \<Rightarrow> int \<Rightarrow> int list option" where
  "vec_set xs i v = (if 0 \<le> i \<and> i < int (length xs) then Some (xs[nat i := v]) else None)"

section \<open>inputDataGenerator\<close>

text \<open>
  \<^verbatim>\<open>std::uniform_int_distribution<int> distribution(0, 10)\<close> applied to the
  \<^verbatim>\<open>std::default_random_engine\<close> is library code: it is the parameter \<open>distribution\<close>, which
  maps the engine's state \<open>g\<close> to the number drawn and the next state. The C++ standard
  promises a number between the two bounds of the distribution.
\<close>

definition dist_contract :: "('g \<Rightarrow> int \<times> 'g) \<Rightarrow> bool" where
  "dist_contract distribution \<longleftrightarrow> (\<forall>g. 0 \<le> fst (distribution g) \<and> fst (distribution g) \<le> 10)"

function generator_loop :: "('g \<Rightarrow> int \<times> 'g) \<Rightarrow> int \<Rightarrow> int \<Rightarrow> 'g \<Rightarrow> int list \<Rightarrow> int list option" where
  "generator_loop distribution N k g data =
     (if k < N then
        (case distribution g of (number, g') \<Rightarrow>
           (case vec_set data k number of
              None \<Rightarrow> None
            | Some data' \<Rightarrow> generator_loop distribution N (k + 1) g' data'))
      else Some data)"
  by pat_completeness auto
termination
  by (relation "measure (\<lambda>(distribution, N, k, g, data). nat (N - k))") auto

declare generator_loop.simps [simp del]

definition inputDataGenerator :: "('g \<Rightarrow> int \<times> 'g) \<Rightarrow> 'g \<Rightarrow> int \<Rightarrow> int list option" where
  "inputDataGenerator distribution g N =
     (case new_vector N of
        None \<Rightarrow> None
      | Some data \<Rightarrow> generator_loop distribution N 0 g data)"

section \<open>slaveCode\<close>

text \<open>
  A worker is a function of the messages rank 0 sends it, in the order they arrive. Its
  result is the sequence of its MPI calls and whether it left its loop; an exhausted
  mailbox is a worker blocked in \<^verbatim>\<open>MPI_Recv\<close>. Printing and the per-rank file are left out.
\<close>

datatype slave_event = Slave_Recv int | Slave_Send int

fun slaveCode :: "int \<Rightarrow> int list \<Rightarrow> slave_event list \<times> bool" where
  "slaveCode rank [] = ([], False)"
| "slaveCode rank (x # xs) =
     (if x < 0 then ([Slave_Recv x], True)
      else (let y = func_expensive x;
                (es, finished) = slaveCode rank xs
            in (Slave_Recv x # Slave_Send y # es, finished)))"

definition errValue :: int where
  "errValue = - 1"

section \<open>masterCode\<close>

text \<open>
  The MPI calls of rank 0, in program order. A task send carries the destination, the
  index \<^verbatim>\<open>counter\<close> of the input it points to and the value there; a termination send
  carries \<^verbatim>\<open>errValue\<close> to its destination; a receive reports the source and the value.
\<close>

datatype event = Send_Task int int int | Send_Term int | Recv int int

text \<open>
  The local variables of \<^verbatim>\<open>masterCode\<close> that change, and the trace of its MPI calls.
  The parameter \<^verbatim>\<open>size\<close> is written \<open>mpiSize\<close>, the name of its argument in \<^verbatim>\<open>main\<close>.
  \<^verbatim>\<open>N_activeProc\<close> is declared after the start-up loop; it is 0 until then. The field
  \<open>output_vec\<close> is the vector \<^verbatim>\<open>output\<close>.
\<close>

record master_state =
  counter :: int
  output_vec :: "int list"
  inputIdx2proc :: "int list"
  proc2inputIdx :: "int list"
  N_activeProc :: int
  trace :: "event list"

text \<open>The start-up loop \<^verbatim>\<open>for (int k = 1; k < size; k++)\<close>.\<close>

function startup_loop :: "int list \<Rightarrow> int \<Rightarrow> int \<Rightarrow> int \<Rightarrow> master_state \<Rightarrow> master_state option" where
  "startup_loop input kmax mpiSize k st =
     (if k < mpiSize then
        (if counter st < kmax then
           do {
             x \<leftarrow> vec_get input (counter st);
             i2p \<leftarrow> vec_set (inputIdx2proc st) (counter st) k;
             p2i \<leftarrow> vec_set (proc2inputIdx st) k (counter st);
             startup_loop input kmax mpiSize (k + 1)
               (st\<lparr>trace := trace st @ [Send_Task k (counter st) x],
                   inputIdx2proc := i2p,
                   proc2inputIdx := p2i,
                   counter := counter st + 1\<rparr>)
           }
         else
           do {
             p2i \<leftarrow> vec_set (proc2inputIdx st) k (- 1);
             startup_loop input kmax mpiSize (k + 1)
               (st\<lparr>trace := trace st @ [Send_Term k],
                   proc2inputIdx := p2i\<rparr>)
           })
      else Some st)"
  by pat_completeness auto
termination
  by (relation "measure (\<lambda>(input, kmax, mpiSize, k, st). nat (mpiSize - k))") auto

declare startup_loop.simps [simp del]

text \<open>
  The body of the main loop after \<^verbatim>\<open>MPI_Recv\<close> has returned the value \<open>y\<close> from rank
  \<open>procNr\<close>. In \<^verbatim>\<open>counter < input.size()\<close> the \<^verbatim>\<open>int\<close> is converted to the unsigned size
  type, so a negative \<^verbatim>\<open>counter\<close> compares as a huge number.
\<close>

definition loop_body :: "int list \<Rightarrow> master_state \<Rightarrow> int \<Rightarrow> int \<Rightarrow> master_state option" where
  "loop_body input st procNr y =
     do {
       idx \<leftarrow> vec_get (proc2inputIdx st) procNr;
       out \<leftarrow> vec_set (output_vec st) idx y;
       if 0 \<le> counter st \<and> counter st < int (length input) then
         do {
           x \<leftarrow> vec_get input (counter st);
           i2p \<leftarrow> vec_set (inputIdx2proc st) (counter st) procNr;
           p2i \<leftarrow> vec_set (proc2inputIdx st) procNr (counter st);
           Some (st\<lparr>output_vec := out,
                    trace := trace st @ [Recv procNr y, Send_Task procNr (counter st) x],
                    inputIdx2proc := i2p,
                    proc2inputIdx := p2i,
                    counter := counter st + 1\<rparr>)
         }
       else
         do {
           p2i \<leftarrow> vec_set (proc2inputIdx st) procNr (- 1);
           Some (st\<lparr>output_vec := out,
                    trace := trace st @ [Recv procNr y, Send_Term procNr],
                    proc2inputIdx := p2i,
                    N_activeProc := N_activeProc st - 1\<rparr>)
         }
     }"

text \<open>
  The state of a pass between \<^verbatim>\<open>proc2inputIdx[procNr] = -1\<close> and \<^verbatim>\<open>N_activeProc--\<close>;
  \<open>None\<close> for a pass that does not come there.
\<close>

definition before_decrement :: "int list \<Rightarrow> master_state \<Rightarrow> int \<Rightarrow> int \<Rightarrow> master_state option" where
  "before_decrement input st procNr y =
     do {
       idx \<leftarrow> vec_get (proc2inputIdx st) procNr;
       out \<leftarrow> vec_set (output_vec st) idx y;
       if 0 \<le> counter st \<and> counter st < int (length input) then None
       else
         do {
           p2i \<leftarrow> vec_set (proc2inputIdx st) procNr (- 1);
           Some (st\<lparr>output_vec := out,
                    trace := trace st @ [Recv procNr y, Send_Term procNr],
                    proc2inputIdx := p2i\<rparr>)
         }
     }"

subsection \<open>The workers seen from rank 0\<close>

text \<open>
  The messages sent to rank \<open>p\<close> so far, in order (MPI does not let messages between
  one pair of ranks overtake each other), and the number of results received from it.
\<close>

fun sent_to :: "int \<Rightarrow> event \<Rightarrow> int list" where
  "sent_to p (Send_Task d i x) = (if d = p then [x] else [])"
| "sent_to p (Send_Term d) = (if d = p then [errValue] else [])"
| "sent_to p (Recv s y) = []"

definition mailbox :: "event list \<Rightarrow> int \<Rightarrow> int list" where
  "mailbox tr p = concat (map (sent_to p) tr)"

fun is_recv_from :: "int \<Rightarrow> event \<Rightarrow> bool" where
  "is_recv_from p (Recv s y) = (s = p)"
| "is_recv_from p _ = False"

definition received_from :: "event list \<Rightarrow> int \<Rightarrow> nat" where
  "received_from tr p = length (filter (is_recv_from p) tr)"

text \<open>What rank \<open>p\<close> sends back on the messages \<open>xs\<close>: the sends of \<open>slaveCode\<close>.\<close>

fun sent_value :: "slave_event \<Rightarrow> int list" where
  "sent_value (Slave_Send y) = [y]"
| "sent_value (Slave_Recv x) = []"

definition replies :: "int \<Rightarrow> int list \<Rightarrow> int list" where
  "replies p xs = concat (map sent_value (fst (slaveCode p xs)))"

text \<open>
  The results of rank \<open>p\<close> that rank 0 has not received yet, and the ranks that have one.
  Rank 0 sends nothing to itself and runs no \<open>slaveCode\<close>, so the senders are among the
  ranks \<open>1\<close> to \<open>mpiSize - 1\<close>.
\<close>

definition pending :: "event list \<Rightarrow> int \<Rightarrow> int list" where
  "pending tr p = drop (received_from tr p) (replies p (mailbox tr p))"

definition senders :: "int \<Rightarrow> event list \<Rightarrow> int list" where
  "senders mpiSize tr = filter (\<lambda>p. pending tr p \<noteq> []) [1..mpiSize - 1]"

text \<open>
  \<^verbatim>\<open>MPI_Recv\<close> from \<^verbatim>\<open>MPI_ANY_SOURCE\<close>: it returns the oldest pending result of one of
  the senders, and which one depends on the timing of the workers. The number \<open>c\<close>
  makes that choice, so that every order of arrival is the run of some choices. With no
  sender the call never returns: \<open>None\<close>.
\<close>

definition MPI_Recv_any :: "int \<Rightarrow> nat \<Rightarrow> event list \<Rightarrow> (int \<times> int) option" where
  "MPI_Recv_any mpiSize c tr =
     (case senders mpiSize tr of
        [] \<Rightarrow> None
      | p # ps \<Rightarrow> (let procNr = (p # ps) ! (c mod length (p # ps))
                  in Some (procNr, hd (pending tr procNr))))"

datatype outcome = Finished master_state | Blocked master_state | Undefined

text \<open>One pass through \<^verbatim>\<open>while (N_activeProc > 0)\<close>, entered with \<^verbatim>\<open>N_activeProc > 0\<close>.\<close>

datatype pass = Next master_state | No_Message | Fault

definition loop_pass :: "int list \<Rightarrow> int \<Rightarrow> nat \<Rightarrow> master_state \<Rightarrow> pass" where
  "loop_pass input mpiSize c st =
     (case MPI_Recv_any mpiSize c (trace st) of
        None \<Rightarrow> No_Message
      | Some (procNr, y) \<Rightarrow>
          (case loop_body input st procNr y of
             None \<Rightarrow> Fault
           | Some st' \<Rightarrow> Next st'))"

text \<open>The choices of arrival are a list, one per pass; an exhausted list chooses 0.\<close>

fun choice :: "nat list \<Rightarrow> nat" where
  "choice [] = 0"
| "choice (c # cs) = c"

definition loop_measure :: "int list \<Rightarrow> master_state \<Rightarrow> nat" where
  "loop_measure input st = nat (int (length input) - counter st) + nat (N_activeProc st)"

function main_loop :: "int list \<Rightarrow> int \<Rightarrow> nat list \<Rightarrow> master_state \<Rightarrow> outcome" where
  "main_loop input mpiSize cs st =
     (if N_activeProc st > 0 then
        (case loop_pass input mpiSize (choice cs) st of
           Next st' \<Rightarrow> main_loop input mpiSize (tl cs) st'
         | No_Message \<Rightarrow> Blocked st
         | Fault \<Rightarrow> Undefined)
      else Finished st)"
  by pat_completeness auto
termination
proof (relation "measure (\<lambda>(input, mpiSize, cs, st). loop_measure input st)")
  show "wf (measure (\<lambda>(input, mpiSize, cs, st). loop_measure input st))"
    by simp
next
  fix input :: "int list" and mpiSize :: int and cs :: "nat list" and st st' :: master_state
  assume active: "0 < N_activeProc st"
    and pass: "loop_pass input mpiSize (choice cs) st = Next st'"
  from pass obtain procNr y where body: "loop_body input st procNr y = Some st'"
    by (auto simp: loop_pass_def split: option.splits prod.splits)
  have "loop_measure input st' < loop_measure input st"
  proof (cases "0 \<le> counter st \<and> counter st < int (length input)")
    case True
    with body have "counter st' = counter st + 1" and "N_activeProc st' = N_activeProc st"
      by (auto simp: loop_body_def split: Option.bind_splits)
    with True show ?thesis
      by (simp add: loop_measure_def)
  next
    case False
    with body have "counter st' = counter st" and "N_activeProc st' = N_activeProc st - 1"
      by (auto simp: loop_body_def split: Option.bind_splits)
    with active show ?thesis
      by (simp add: loop_measure_def)
  qed
  then show "((input, mpiSize, tl cs, st'), (input, mpiSize, cs, st))
      \<in> measure (\<lambda>(input, mpiSize, cs, st). loop_measure input st)"
    by simp
qed

declare main_loop.simps [simp del]

text \<open>
  The states at the head of the loop, in order: the state the loop is entered with, then
  the state after each pass. The last one is the state the loop is left with.
\<close>

function loop_points :: "int list \<Rightarrow> int \<Rightarrow> nat list \<Rightarrow> master_state \<Rightarrow> master_state list" where
  "loop_points input mpiSize cs st =
     st # (if N_activeProc st > 0 then
             (case loop_pass input mpiSize (choice cs) st of
                Next st' \<Rightarrow> loop_points input mpiSize (tl cs) st'
              | No_Message \<Rightarrow> []
              | Fault \<Rightarrow> [])
           else [])"
  by pat_completeness auto
termination
  by (relation "measure (\<lambda>(input, mpiSize, cs, st). loop_measure input st)")
     (auto simp: loop_pass_def loop_body_def loop_measure_def
           split: option.splits prod.splits Option.bind_splits if_splits)

declare loop_points.simps [simp del]

text \<open>
  \<^verbatim>\<open>masterCode\<close> up to the main loop: the four vectors, the start-up loop from
  \<^verbatim>\<open>k = 1\<close> and \<^verbatim>\<open>N_activeProc = counter\<close>.
\<close>

definition master_init :: "int list \<Rightarrow> int \<Rightarrow> int \<Rightarrow> master_state option" where
  "master_init input N mpiSize =
     do {
       out \<leftarrow> new_vector (int (length input));
       i2p \<leftarrow> new_vector N;
       p2i \<leftarrow> new_vector mpiSize;
       st \<leftarrow> startup_loop input (min (mpiSize - 1) N) mpiSize 1
              \<lparr>counter = 0, output_vec = out, inputIdx2proc = i2p, proc2inputIdx = p2i,
               N_activeProc = 0, trace = []\<rparr>;
       Some (st\<lparr>N_activeProc := counter st\<rparr>)
     }"

text \<open>
  \<^verbatim>\<open>masterCode(N, size)\<close> up to the end of the main loop. The file \<^verbatim>\<open>rank-0.dat\<close> and
  the comparison with the serial computation that follow the loop only print.
\<close>

definition masterCode :: "('g \<Rightarrow> int \<times> 'g) \<Rightarrow> 'g \<Rightarrow> nat list \<Rightarrow> int \<Rightarrow> int \<Rightarrow> outcome" where
  "masterCode distribution g cs N mpiSize =
     (case inputDataGenerator distribution g N of
        None \<Rightarrow> Undefined
      | Some input \<Rightarrow>
          (case master_init input N mpiSize of
             None \<Rightarrow> Undefined
           | Some st \<Rightarrow> main_loop input mpiSize cs st))"

text \<open>The loop heads of a whole run of \<^verbatim>\<open>masterCode\<close>.\<close>

definition master_points :: "('g \<Rightarrow> int \<times> 'g) \<Rightarrow> 'g \<Rightarrow> nat list \<Rightarrow> int \<Rightarrow> int \<Rightarrow> master_state list" where
  "master_points distribution g cs N mpiSize =
     (case inputDataGenerator distribution g N of
        None \<Rightarrow> []
      | Some input \<Rightarrow>
          (case master_init input N mpiSize of
             None \<Rightarrow> []
           | Some st \<Rightarrow> loop_points input mpiSize cs st))"

section \<open>Notions the properties are stated with\<close>

text \<open>The task indices handed out in a trace, in the order of the sends.\<close>

fun task_index :: "event \<Rightarrow> int list" where
  "task_index (Send_Task d i x) = [i]"
| "task_index (Send_Term d) = []"
| "task_index (Recv s y) = []"

definition task_indices :: "event list \<Rightarrow> int list" where
  "task_indices tr = concat (map task_index tr)"

text \<open>A trace in which every receive is answered at once by one send to its source.\<close>

fun responses :: "event list \<Rightarrow> bool" where
  "responses [] = True"
| "responses (Recv s y # Send_Task d i x # tr) = (d = s \<and> responses tr)"
| "responses (Recv s y # Send_Term d # tr) = (d = s \<and> responses tr)"
| "responses (e # tr) = False"

text \<open>
  The sends of a start-up that gives the inputs \<open>0\<close> to \<open>k - 1\<close> to the ranks \<open>1\<close> to
  \<open>k\<close> and the termination signal to every rank above \<open>k\<close>.
\<close>

definition startup_sends :: "int list \<Rightarrow> int \<Rightarrow> int \<Rightarrow> event list" where
  "startup_sends input k mpiSize =
     map (\<lambda>p. if p \<le> k then Send_Task p (p - 1) (input ! nat (p - 1)) else Send_Term p)
       [1..mpiSize - 1]"

text \<open>The number of results received in a trace.\<close>

fun is_recv :: "event \<Rightarrow> bool" where
  "is_recv (Recv s y) = True"
| "is_recv (Send_Task d i x) = False"
| "is_recv (Send_Term d) = False"

definition receives :: "event list \<Rightarrow> nat" where
  "receives tr = length (filter is_recv tr)"

text \<open>The entry of \<^verbatim>\<open>proc2inputIdx\<close> for rank \<open>p\<close>, and the ranks whose entry is not \<open>-1\<close>.\<close>

definition slot :: "master_state \<Rightarrow> int \<Rightarrow> int option" where
  "slot st p = vec_get (proc2inputIdx st) p"

definition active_workers :: "int \<Rightarrow> master_state \<Rightarrow> int list" where
  "active_workers mpiSize st = filter (\<lambda>p. slot st p \<noteq> Some (- 1)) [1..mpiSize - 1]"


text \<open>A concrete engine for the examples: a linear congruential generator.\<close>

definition lcg :: "int \<Rightarrow> int \<times> int" where
  "lcg g = (g mod 11, (16807 * g) mod 2147483647)"

section \<open>Invariants of the main loop\<close>

definition inv_shape :: "int list \<Rightarrow> int \<Rightarrow> master_state \<Rightarrow> bool" where
  "inv_shape input mpiSize st \<longleftrightarrow>
     2 \<le> mpiSize
     \<and> length (proc2inputIdx st) = nat mpiSize
     \<and> length (output_vec st) = length input
     \<and> length (inputIdx2proc st) = length input
     \<and> 0 \<le> counter st \<and> counter st \<le> int (length input)
     \<and> (\<forall>x \<in> set input. 0 \<le> x)"

definition inv_slots :: "int \<Rightarrow> master_state \<Rightarrow> bool" where
  "inv_slots mpiSize st \<longleftrightarrow>
     (\<forall>p. 1 \<le> p \<and> p < mpiSize \<longrightarrow>
        (\<exists>s. slot st p = Some s \<and> (s = - 1 \<or> (0 \<le> s \<and> s < counter st))))"

definition inv_count :: "int \<Rightarrow> master_state \<Rightarrow> bool" where
  "inv_count mpiSize st \<longleftrightarrow> N_activeProc st = int (length (active_workers mpiSize st))"

text \<open>
  The last message to a worker is its current task, or the termination signal when its
  slot is \<open>-1\<close>; every earlier message was a task, and its result has been received.
\<close>

definition inv_mail :: "int list \<Rightarrow> int \<Rightarrow> master_state \<Rightarrow> bool" where
  "inv_mail input mpiSize st \<longleftrightarrow>
     (\<forall>p s. 1 \<le> p \<and> p < mpiSize \<and> slot st p = Some s \<longrightarrow>
        (\<exists>ts. mailbox (trace st) p = ts @ [if s = - 1 then errValue else input ! nat s]
           \<and> (\<forall>x \<in> set ts. 0 \<le> x)
           \<and> received_from (trace st) p = length ts))"

definition master_inv :: "int list \<Rightarrow> int \<Rightarrow> master_state \<Rightarrow> bool" where
  "master_inv input mpiSize st \<longleftrightarrow>
     inv_shape input mpiSize st \<and> inv_slots mpiSize st
     \<and> inv_count mpiSize st \<and> inv_mail input mpiSize st"

text \<open>
  The state after a pass that received \<open>y\<close> from rank \<open>q\<close>, whose slot held \<open>idx\<close>.
\<close>

definition pass_result :: "int list \<Rightarrow> master_state \<Rightarrow> int \<Rightarrow> int \<Rightarrow> int \<Rightarrow> master_state" where
  "pass_result input st q idx y =
     (if counter st < int (length input) then
        st\<lparr>output_vec := (output_vec st)[nat idx := y],
           trace := trace st @ [Recv q y, Send_Task q (counter st) (input ! nat (counter st))],
           inputIdx2proc := (inputIdx2proc st)[nat (counter st) := q],
           proc2inputIdx := (proc2inputIdx st)[nat q := counter st],
           counter := counter st + 1\<rparr>
      else
        st\<lparr>output_vec := (output_vec st)[nat idx := y],
           trace := trace st @ [Recv q y, Send_Term q],
           proc2inputIdx := (proc2inputIdx st)[nat q := - 1],
           N_activeProc := N_activeProc st - 1\<rparr>)"

section \<open>The trapezoidal rule\<close>

lemma wrap32_id: "- 2147483648 \<le> x \<Longrightarrow> x \<le> 2147483647 \<Longrightarrow> wrap32 x = x"
  by (simp add: wrap32_def)

lemma wrap32_range: "- 2147483648 \<le> wrap32 x \<and> wrap32 x \<le> 2147483647"
proof -
  have "0 \<le> (x + 2147483648) mod 4294967296" "(x + 2147483648) mod 4294967296 < 4294967296"
    by simp_all
  then show ?thesis
    unfolding wrap32_def by linarith
qed

lemma trapezoidal_loop_fold:
  assumes n: "0 \<le> n" "n \<le> 2147483645" and k: "0 \<le> k" "k \<le> n + 2"
  shows "trapezoidal_loop D f a dx n k result
       = Some (foldl (d_add D) result (map (sample D f a dx n) [k..n + 1]))"
  using k
proof (induction "nat (n + 2 - k)" arbitrary: k result)
  case 0
  then have "k = n + 2" by simp
  with n show ?case
    by (subst trapezoidal_loop.simps) (simp add: wrap32_id)
next
  case (Suc m)
  then have le: "k \<le> n + 1" by simp
  with n Suc.prems have bound: "k \<le> wrap32 (n + 1)" and step: "wrap32 (k + 1) = k + 1"
    by (simp_all add: wrap32_id)
  from le have list: "[k..n + 1] = k # [k + 1..n + 1]"
    by (rule upto_rec1)
  from Suc.hyps(2) have m: "m = nat (n + 2 - (k + 1))" by simp
  have rest: "trapezoidal_loop D f a dx n (k + 1) r
      = Some (foldl (d_add D) r (map (sample D f a dx n) [k + 1..n + 1]))" for r
    using Suc.prems le by (intro Suc.hyps(1) [OF m]) simp_all
  show ?case
    by (subst trapezoidal_loop.simps) (simp add: bound step rest list sample_def Let_def)
qed

lemma trapezoidal_loop_forever:
  assumes "trapezoidal_loop D f a dx n k result = Some r"
  shows "wrap32 (n + 1) = 2147483647 \<longrightarrow> - 2147483648 \<le> k \<and> k \<le> 2147483647 \<longrightarrow> False"
proof (rule trapezoidal_loop.raw_induct
    [where P = "\<lambda>D f a dx n k result r.
       wrap32 (n + 1) = 2147483647 \<longrightarrow> - 2147483648 \<le> k \<and> k \<le> 2147483647 \<longrightarrow> False",
     OF _ assms])
  fix loop :: "'a double_ops \<Rightarrow> ('a \<Rightarrow> 'a) \<Rightarrow> 'a \<Rightarrow> 'a \<Rightarrow> int \<Rightarrow> int \<Rightarrow> 'a \<Rightarrow> 'a option"
    and D f a dx n k result r
  assume IH: "\<And>D f a dx n k result r. loop D f a dx n k result = Some r \<Longrightarrow>
      wrap32 (n + 1) = 2147483647 \<longrightarrow> - 2147483648 \<le> k \<and> k \<le> 2147483647 \<longrightarrow> False"
    and body: "(if k \<le> wrap32 (n + 1)
      then let x = d_add D a (d_mul D (d_of_int D k) dx); y = f x
           in if k = 0 \<or> k = n
              then loop D f a dx n (wrap32 (k + 1)) (d_add D result (d_mul D (d_half D) y))
              else loop D f a dx n (wrap32 (k + 1)) (d_add D result y)
      else Some result) = Some r"
  show "wrap32 (n + 1) = 2147483647 \<longrightarrow> - 2147483648 \<le> k \<and> k \<le> 2147483647 \<longrightarrow> False"
  proof (intro impI)
    assume top: "wrap32 (n + 1) = 2147483647" and k: "- 2147483648 \<le> k \<and> k \<le> 2147483647"
    from top k have enter: "k \<le> wrap32 (n + 1)"
      by simp
    have "\<exists>res. loop D f a dx n (wrap32 (k + 1)) res = Some r"
    proof (cases "k = 0 \<or> k = n")
      case True
      with body enter show ?thesis
        by (auto simp: Let_def)
    next
      case False
      with body enter show ?thesis
        by (auto simp: Let_def)
    qed
    then obtain res where "loop D f a dx n (wrap32 (k + 1)) res = Some r" ..
    from IH [OF this] top wrap32_range [of "k + 1"] show False
      by blast
  qed
qed

text \<open>
  C10, as the code has it: for \<open>0 \<le> n \<le> 2147483645\<close>, \<open>trapezoidal\<close> returns the value
  of \<open>dx * (sum of the terms of the samples k = 0, \<dots>, n + 1)\<close> as the program computes
  it in its \<^verbatim>\<open>double\<close> arithmetic: \<open>dx = (b - a) / (n + 1)\<close>, the terms added one by one
  in the order of \<open>k\<close> to a result that starts at 0, and the sum multiplied by \<open>dx\<close>. The
  term is half of \<open>f (a + k * dx)\<close> for \<open>k = 0\<close> and \<open>k = n\<close> and \<open>f (a + k * dx)\<close> itself
  for every other \<open>k\<close>, the last sample \<open>k = n + 1\<close> among them. For \<open>n = 2147483646\<close> the
  condition \<^verbatim>\<open>k <= n+1\<close> never fails and the call does not return. For \<open>n = 2147483647\<close>
  the bound \<^verbatim>\<open>n+1\<close> wraps to the least \<^verbatim>\<open>int\<close>, the loop body never runs, and
  \<open>0 * dx\<close> is returned without a call of \<open>f\<close>.
\<close>

theorem trapezoidal_weighted_sum:
  "(0 \<le> n \<and> n \<le> 2147483645 \<longrightarrow>
      trapezoidal D f a b n =
        Some (d_mul D
               (foldl (d_add D) (d_of_int D 0)
                  (map (sample D f a (d_div D (d_sub D b a) (d_of_int D (n + 1))) n) [0..n + 1]))
               (d_div D (d_sub D b a) (d_of_int D (n + 1))))
      \<and> sample D f a dx n (n + 1) = f (d_add D a (d_mul D (d_of_int D (n + 1)) dx)))
   \<and> (n = 2147483646 \<longrightarrow> trapezoidal D f a b n = None)
   \<and> (n = 2147483647 \<longrightarrow>
        trapezoidal D f a b n =
          Some (d_mul D (d_of_int D 0) (d_div D (d_sub D b a) (d_of_int D (- 2147483648)))))"
proof (intro conjI impI)
  assume n: "0 \<le> n \<and> n \<le> 2147483645"
  then have "wrap32 (n + 1) = n + 1"
    by (simp add: wrap32_id)
  moreover from n have "trapezoidal_loop D f a dx' n 0 r
      = Some (foldl (d_add D) r (map (sample D f a dx' n) [0..n + 1]))" for dx' r
    by (intro trapezoidal_loop_fold) simp_all
  ultimately show "trapezoidal D f a b n =
        Some (d_mul D
               (foldl (d_add D) (d_of_int D 0)
                  (map (sample D f a (d_div D (d_sub D b a) (d_of_int D (n + 1))) n) [0..n + 1]))
               (d_div D (d_sub D b a) (d_of_int D (n + 1))))"
    by (simp add: trapezoidal_def Let_def)
  from n show "sample D f a dx n (n + 1) = f (d_add D a (d_mul D (d_of_int D (n + 1)) dx))"
    by (simp add: sample_def)
next
  assume n: "n = 2147483646"
  then have top: "wrap32 (n + 1) = 2147483647"
    by (simp add: wrap32_def)
  have "trapezoidal_loop D f a dx' n 0 r = None" for dx' r
  proof (cases "trapezoidal_loop D f a dx' n 0 r")
    case None
    then show ?thesis .
  next
    case (Some v)
    from trapezoidal_loop_forever [OF Some] top have False
      by simp
    then show ?thesis ..
  qed
  then show "trapezoidal D f a b n = None"
    by (simp add: trapezoidal_def Let_def)
next
  assume n: "n = 2147483647"
  then have low: "wrap32 (n + 1) = - 2147483648"
    by (simp add: wrap32_def)
  have "trapezoidal_loop D f a dx' n 0 r = Some r" for dx' r
    by (subst trapezoidal_loop.simps) (simp add: low)
  with low show "trapezoidal D f a b n =
      Some (d_mul D (d_of_int D 0) (d_div D (d_sub D b a) (d_of_int D (- 2147483648))))"
    by (simp add: trapezoidal_def Let_def)
qed

theorem trapezoidal_weighted_sum_witness:
  "trapezoidal symbolic Func (Var ''a'') (Var ''b'') 1 =
     Some (Mul (Add (Add (Add (Of_int 0)
                  (Mul Half (Func (Add (Var ''a'') (Mul (Of_int 0) (Div (Sub (Var ''b'') (Var ''a'')) (Of_int 2)))))))
                  (Mul Half (Func (Add (Var ''a'') (Mul (Of_int 1) (Div (Sub (Var ''b'') (Var ''a'')) (Of_int 2)))))))
                  (Func (Add (Var ''a'') (Mul (Of_int 2) (Div (Sub (Var ''b'') (Var ''a'')) (Of_int 2))))))
           (Div (Sub (Var ''b'') (Var ''a'')) (Of_int 2)))
   \<and> trapezoidal symbolic Func (Var ''a'') (Var ''b'') 2147483646 = None"
proof -
  have samples: "[0..2] = [0, 1, 2 :: int]"
    by code_simp
  note inst = trapezoidal_weighted_sum [of 1 symbolic Func "Var ''a''" "Var ''b''" "Var ''dx''"]
  note none = trapezoidal_weighted_sum [of 2147483646 symbolic Func "Var ''a''" "Var ''b''" "Var ''dx''"]
  from inst have "trapezoidal symbolic Func (Var ''a'') (Var ''b'') 1 =
     Some (Mul (Add (Add (Add (Of_int 0)
                  (Mul Half (Func (Add (Var ''a'') (Mul (Of_int 0) (Div (Sub (Var ''b'') (Var ''a'')) (Of_int 2)))))))
                  (Mul Half (Func (Add (Var ''a'') (Mul (Of_int 1) (Div (Sub (Var ''b'') (Var ''a'')) (Of_int 2)))))))
                  (Func (Add (Var ''a'') (Mul (Of_int 2) (Div (Sub (Var ''b'') (Var ''a'')) (Of_int 2))))))
           (Div (Sub (Var ''b'') (Var ''a'')) (Of_int 2)))"
    by (simp add: samples sample_def symbolic_def)
  moreover from none have "trapezoidal symbolic Func (Var ''a'') (Var ''b'') 2147483646 = None"
    by simp
  ultimately show ?thesis ..
qed

text \<open>
  C10 as stated fails at the largest \<^verbatim>\<open>int\<close>: the expression returned for
  \<open>n = 2147483647\<close> has no sample of \<open>f\<close> in it.
\<close>

theorem trapezoidal_every_n_counterexample:
  "trapezoidal symbolic Func (Var ''a'') (Var ''b'') 2147483647 =
     Some (Mul (Of_int 0) (Div (Sub (Var ''b'') (Var ''a'')) (Of_int (- 2147483648))))"
  by code_simp

section \<open>The worker\<close>

lemma slaveCode_Cons_task:
  "0 \<le> x \<Longrightarrow> slaveCode rank (x # xs) =
     (Slave_Recv x # Slave_Send (func_expensive x) # fst (slaveCode rank xs), snd (slaveCode rank xs))"
  by (simp add: Let_def split: prod.splits)

lemma Sleep_returns: "Sleep_argument x \<noteq> INFINITE"
proof
  assume "Sleep_argument x = INFINITE"
  then have "(wrap32 (100 * x) mod 4294967296) mod 4 = 4294967295 mod (4::int)"
    by (simp add: Sleep_argument_def INFINITE_def)
  moreover have "(wrap32 (100 * x) mod 4294967296) mod 4 = wrap32 (100 * x) mod 4"
    by (rule mod_mod_cancel) simp
  moreover have "wrap32 (100 * x) mod 4 = ((100 * x + 2147483648) mod 4294967296) mod 4"
    unfolding wrap32_def by (simp add: mod_diff_eq [symmetric])
  moreover have "((100 * x + 2147483648) mod 4294967296) mod 4 = (100 * x + 2147483648) mod 4"
    by (rule mod_mod_cancel) simp
  moreover have "(100 * x + 2147483648) mod 4 = 0"
    by presburger
  ultimately show False
    by simp
qed

text \<open>
  C8: a worker leaves its loop exactly when one of the values it receives is negative.
  Before that, each value it receives is followed by one send of \<open>func_expensive\<close> of
  that value (the 32-bit result of \<^verbatim>\<open>x + 1\<close>), and then by the next receive; the
  negative value is received and not answered, and nothing after it is received. The
  \<^verbatim>\<open>Sleep\<close> inside \<open>func_expensive\<close> returns for every value.
\<close>

theorem slave_loop_exit:
  "(snd (slaveCode rank xs) \<longleftrightarrow> (\<exists>x \<in> set xs. x < 0))
   \<and> fst (slaveCode rank xs) =
       concat (map (\<lambda>x. [Slave_Recv x, Slave_Send (func_expensive x)]) (takeWhile (\<lambda>x. \<not> x < 0) xs))
       @ (case dropWhile (\<lambda>x. \<not> x < 0) xs of [] \<Rightarrow> [] | x # rest \<Rightarrow> [Slave_Recv x])
   \<and> list_all (\<lambda>x. Sleep_argument x \<noteq> INFINITE) xs"
proof (induction xs)
  case Nil
  show ?case by simp
next
  case (Cons x xs)
  show ?case
  proof (cases "x < 0")
    case True
    with Cons.IH show ?thesis by (simp add: Sleep_returns)
  next
    case False
    then have "0 \<le> x" by simp
    from slaveCode_Cons_task [OF this] Cons.IH False show ?thesis
      by (simp add: Sleep_returns)
  qed
qed

theorem slave_loop_exit_witness:
  "slaveCode 1 [3, 0, - 1, 5] =
     ([Slave_Recv 3, Slave_Send 4, Slave_Recv 0, Slave_Send 1, Slave_Recv (- 1)], True)
   \<and> slaveCode 1 [3, 0] = ([Slave_Recv 3, Slave_Send 4, Slave_Recv 0, Slave_Send 1], False)
   \<and> slaveCode 1 [2147483647, - 1] =
     ([Slave_Recv 2147483647, Slave_Send (- 2147483648), Slave_Recv (- 1)], True)"
  using slave_loop_exit [of 1 "[3, 0, - 1, 5]"] slave_loop_exit [of 1 "[3, 0]"]
    slave_loop_exit [of 1 "[2147483647, - 1]"]
  by (simp add: prod_eq_iff func_expensive_def func_cheap_def wrap32_def)

section \<open>The generated inputs\<close>

lemma generator_loop_range:
  "dist_contract distribution \<Longrightarrow> 0 \<le> k \<Longrightarrow> k \<le> N \<Longrightarrow> int (length data) = N
    \<Longrightarrow> (\<forall>i < nat k. 0 \<le> data ! i \<and> data ! i \<le> 10)
    \<Longrightarrow> \<exists>data'. generator_loop distribution N k g data = Some data'
          \<and> length data' = length data
          \<and> (\<forall>i < length data'. 0 \<le> data' ! i \<and> data' ! i \<le> 10)"
proof (induction distribution N k g data rule: generator_loop.induct)
  case (1 distribution N k g data)
  show ?case
  proof (cases "k < N")
    case False
    with "1.prems" have "nat k = length data" by simp
    with False "1.prems" show ?thesis
      by (subst generator_loop.simps) simp
  next
    case True
    obtain number g' where draw: "distribution g = (number, g')"
      by (cases "distribution g")
    from "1.prems"(1) have "0 \<le> fst (distribution g) \<and> fst (distribution g) \<le> 10"
      unfolding dist_contract_def by blast
    with draw have number: "0 \<le> number" "number \<le> 10" by simp_all
    from True "1.prems" have set: "vec_set data k number = Some (data[nat k := number])"
      by (simp add: vec_set_def)
    have "\<forall>i < nat (k + 1). 0 \<le> data[nat k := number] ! i \<and> data[nat k := number] ! i \<le> 10"
    proof (intro allI impI)
      fix i assume "i < nat (k + 1)"
      with "1.prems"(2) have "i < nat k \<or> i = nat k" by linarith
      with "1.prems" number True show "0 \<le> data[nat k := number] ! i \<and> data[nat k := number] ! i \<le> 10"
        by (auto simp: nth_list_update)
    qed
    with "1.IH" [OF True draw [symmetric] set] "1.prems" True
    obtain data' where "generator_loop distribution N (k + 1) g' (data[nat k := number]) = Some data'"
      "length data' = length data" "\<forall>i < length data'. 0 \<le> data' ! i \<and> data' ! i \<le> 10"
      by auto
    with True draw set show ?thesis
      by (subst generator_loop.simps) simp
  qed
qed

lemma inputDataGenerator_range:
  assumes "dist_contract distribution" and "0 \<le> N"
  shows "\<exists>input. inputDataGenerator distribution g N = Some input
          \<and> int (length input) = N \<and> (\<forall>x \<in> set input. 0 \<le> x \<and> x \<le> 10)"
proof -
  from assms(2) have new: "new_vector N = Some (replicate (nat N) 0)"
    by (simp add: new_vector_def)
  from generator_loop_range [OF assms(1), of 0 N "replicate (nat N) 0" g] assms(2)
  obtain data' where "generator_loop distribution N 0 g (replicate (nat N) 0) = Some data'"
    "length data' = nat N" "\<forall>i < length data'. 0 \<le> data' ! i \<and> data' ! i \<le> 10"
    by auto
  with new assms(2) show ?thesis
    by (auto simp: inputDataGenerator_def in_set_conv_nth)
qed

lemma inputDataGenerator_negative: "N < 0 \<Longrightarrow> inputDataGenerator distribution g N = None"
  by (simp add: inputDataGenerator_def new_vector_def)

lemma lcg_contract: "dist_contract lcg"
proof -
  have "0 \<le> g mod 11 \<and> g mod 11 \<le> 10" for g :: int
    using pos_mod_sign [of 11 g] pos_mod_bound [of 11 g] by simp
  then show ?thesis
    by (simp add: dist_contract_def lcg_def)
qed

lemma lcg_input: "inputDataGenerator lcg 1 5 = Some [1, 10, 1, 0, 6]"
  by code_simp

section \<open>The coordinator\<close>

subsection \<open>Vectors\<close>

lemma vec_get_SomeD: "vec_get xs i = Some v \<Longrightarrow> 0 \<le> i \<and> i < int (length xs) \<and> xs ! nat i = v"
  by (auto simp: vec_get_def split: if_splits)

lemma vec_get_update:
  "0 \<le> q \<Longrightarrow> q < int (length xs) \<Longrightarrow>
     vec_get (xs[nat q := v]) p = (if p = q then Some v else vec_get xs p)"
  by (auto simp: vec_get_def nth_list_update)

subsection \<open>Traces\<close>

lemma mailbox_append: "mailbox (tr @ tr') p = mailbox tr p @ mailbox tr' p"
  by (simp add: mailbox_def)

lemma mailbox_Nil: "mailbox [] p = []"
  by (simp add: mailbox_def)

lemma mailbox_Cons: "mailbox (e # tr) p = sent_to p e @ mailbox tr p"
  by (simp add: mailbox_def)

lemma received_from_append:
  "received_from (tr @ tr') p = received_from tr p + received_from tr' p"
  by (simp add: received_from_def)

lemma received_from_Nil: "received_from [] p = 0"
  by (simp add: received_from_def)

lemma received_from_Cons:
  "received_from (e # tr) p = (if is_recv_from p e then 1 else 0) + received_from tr p"
  by (simp add: received_from_def)

lemmas trace_simps = mailbox_append mailbox_Nil mailbox_Cons
  received_from_append received_from_Nil received_from_Cons

subsection \<open>What a worker answers\<close>

lemma replies_Nil: "replies p [] = []"
  by (simp add: replies_def)

lemma replies_Cons:
  "replies p (x # xs) = (if x < 0 then [] else func_expensive x # replies p xs)"
  by (simp add: replies_def Let_def split: prod.splits)

lemma replies_tasks:
  "\<forall>x \<in> set ts. 0 \<le> x \<Longrightarrow> replies p (ts @ xs) = map func_expensive ts @ replies p xs"
  by (induction ts) (simp_all add: replies_Cons)

lemma pending_last:
  assumes "mailbox tr p = ts @ [m]" and "\<forall>x \<in> set ts. 0 \<le> x"
    and "received_from tr p = length ts"
  shows "pending tr p = (if m < 0 then [] else [func_expensive m])"
  using assms by (simp add: pending_def replies_tasks replies_Cons replies_Nil)


subsection \<open>One pass of the main loop\<close>

lemma loop_body_result:
  assumes shape: "inv_shape input mpiSize st"
    and q: "0 \<le> q" "q < mpiSize"
    and slot: "slot st q = Some idx" and idx: "0 \<le> idx" "idx < counter st"
  shows "loop_body input st q y = Some (pass_result input st q idx y)"
proof -
  from shape have len: "int (length (proc2inputIdx st)) = mpiSize"
    "length (output_vec st) = length input" "length (inputIdx2proc st) = length input"
    and cnt: "0 \<le> counter st" "counter st \<le> int (length input)"
    by (simp_all add: inv_shape_def)
  from slot have get: "vec_get (proc2inputIdx st) q = Some idx"
    by (simp add: slot_def)
  from idx cnt len have out: "vec_set (output_vec st) idx y = Some ((output_vec st)[nat idx := y])"
    by (simp add: vec_set_def)
  from q len have set_slot: "vec_set (proc2inputIdx st) q v = Some ((proc2inputIdx st)[nat q := v])" for v
    by (simp add: vec_set_def)
  show ?thesis
  proof (cases "counter st < int (length input)")
    case True
    with cnt len have "vec_get input (counter st) = Some (input ! nat (counter st))"
      and "vec_set (inputIdx2proc st) (counter st) q = Some ((inputIdx2proc st)[nat (counter st) := q])"
      by (simp_all add: vec_get_def vec_set_def)
    with True cnt get out set_slot show ?thesis
      by (simp add: loop_body_def pass_result_def)
  next
    case False
    with get out set_slot show ?thesis
      by (simp add: loop_body_def pass_result_def)
  qed
qed

lemma pending_worker:
  assumes inv: "master_inv input mpiSize st"
    and p: "1 \<le> p" "p < mpiSize" and slot: "slot st p = Some s"
  shows "pending (trace st) p = (if s = - 1 then [] else [func_expensive (input ! nat s)])"
proof -
  from inv p slot obtain ts where mail:
    "mailbox (trace st) p = ts @ [if s = - 1 then errValue else input ! nat s]"
    "\<forall>x \<in> set ts. 0 \<le> x" "received_from (trace st) p = length ts"
    unfolding master_inv_def inv_mail_def by blast
  show ?thesis
  proof (cases "s = - 1")
    case True
    with pending_last [OF mail] show ?thesis
      by (simp add: errValue_def)
  next
    case False
    with inv p slot have "0 \<le> s" "s < counter st"
      unfolding master_inv_def inv_slots_def by auto
    moreover from inv have "counter st \<le> int (length input)" "\<forall>x \<in> set input. 0 \<le> x"
      by (simp_all add: master_inv_def inv_shape_def)
    ultimately have "0 \<le> input ! nat s"
      by simp
    with False pending_last [OF mail] show ?thesis
      by simp
  qed
qed

lemma senders_active:
  assumes inv: "master_inv input mpiSize st"
  shows "senders mpiSize (trace st) = active_workers mpiSize st"
  unfolding senders_def active_workers_def
proof (rule filter_cong [OF refl])
  fix p assume "p \<in> set [1..mpiSize - 1]"
  then have p: "1 \<le> p" "p < mpiSize" by simp_all
  with inv obtain s where s: "slot st p = Some s"
    unfolding master_inv_def inv_slots_def by blast
  from pending_worker [OF inv p s] s
  show "(pending (trace st) p \<noteq> []) = (slot st p \<noteq> Some (- 1))"
    by simp
qed

lemma MPI_Recv_any_result:
  assumes inv: "master_inv input mpiSize st" and active: "0 < N_activeProc st"
  shows "\<exists>q idx. 1 \<le> q \<and> q < mpiSize \<and> slot st q = Some idx \<and> 0 \<le> idx \<and> idx < counter st
           \<and> MPI_Recv_any mpiSize c (trace st) = Some (q, func_expensive (input ! nat idx))"
proof -
  from inv active have "active_workers mpiSize st \<noteq> []"
    by (auto simp: master_inv_def inv_count_def)
  then obtain a as where as: "senders mpiSize (trace st) = a # as"
    by (cases "active_workers mpiSize st") (simp_all add: senders_active [OF inv])
  define q where "q = (a # as) ! (c mod length (a # as))"
  have "q \<in> set (a # as)"
    unfolding q_def by (rule nth_mem) simp
  with as have "q \<in> set (active_workers mpiSize st)"
    by (simp add: senders_active [OF inv])
  then have q: "1 \<le> q" "q < mpiSize" and active_q: "slot st q \<noteq> Some (- 1)"
    by (simp_all add: active_workers_def)
  with inv obtain idx where idx: "slot st q = Some idx" "0 \<le> idx" "idx < counter st"
    unfolding master_inv_def inv_slots_def by blast
  from pending_worker [OF inv q idx(1)] idx(2)
  have "hd (pending (trace st) q) = func_expensive (input ! nat idx)"
    by simp
  with as have "MPI_Recv_any mpiSize c (trace st) = Some (q, func_expensive (input ! nat idx))"
    by (simp add: MPI_Recv_any_def q_def Let_def)
  with q idx show ?thesis
    by blast
qed

text \<open>Every rank with a pending result is the source of the receive for some choice.\<close>

lemma MPI_Recv_any_every_sender:
  assumes "p \<in> set (senders mpiSize tr)"
  shows "\<exists>c. MPI_Recv_any mpiSize c tr = Some (p, hd (pending tr p))"
proof -
  from assms obtain c where c: "c < length (senders mpiSize tr)" "senders mpiSize tr ! c = p"
    by (auto simp: in_set_conv_nth)
  then obtain a as where "senders mpiSize tr = a # as"
    by (cases "senders mpiSize tr") simp_all
  with c have "MPI_Recv_any mpiSize c tr = Some (p, hd (pending tr p))"
    by (simp add: MPI_Recv_any_def Let_def)
  then show ?thesis ..
qed

lemma loop_pass_result:
  assumes inv: "master_inv input mpiSize st" and active: "0 < N_activeProc st"
  shows "\<exists>q idx. 1 \<le> q \<and> q < mpiSize \<and> slot st q = Some idx \<and> 0 \<le> idx \<and> idx < counter st
           \<and> loop_pass input mpiSize c st =
               Next (pass_result input st q idx (func_expensive (input ! nat idx)))"
proof -
  from MPI_Recv_any_result [OF inv active, of c] obtain q idx where
    q: "1 \<le> q" "q < mpiSize" and idx: "slot st q = Some idx" "0 \<le> idx" "idx < counter st"
    and recv: "MPI_Recv_any mpiSize c (trace st) = Some (q, func_expensive (input ! nat idx))"
    by blast
  from inv have "inv_shape input mpiSize st"
    by (simp add: master_inv_def)
  from loop_body_result [OF this _ q(2) idx] q(1) recv
  have "loop_pass input mpiSize c st =
      Next (pass_result input st q idx (func_expensive (input ! nat idx)))"
    by (simp add: loop_pass_def)
  with q idx show ?thesis
    by blast
qed


subsection \<open>The state after a pass\<close>

lemma pass_result_fields:
  "counter (pass_result input st q idx y) =
     (if counter st < int (length input) then counter st + 1 else counter st)"
  "N_activeProc (pass_result input st q idx y) =
     (if counter st < int (length input) then N_activeProc st else N_activeProc st - 1)"
  "trace (pass_result input st q idx y) =
     trace st @ [Recv q y, if counter st < int (length input)
                           then Send_Task q (counter st) (input ! nat (counter st))
                           else Send_Term q]"
  "output_vec (pass_result input st q idx y) = (output_vec st)[nat idx := y]"
  "proc2inputIdx (pass_result input st q idx y) =
     (proc2inputIdx st)[nat q := (if counter st < int (length input) then counter st else - 1)]"
  "inputIdx2proc (pass_result input st q idx y) =
     (if counter st < int (length input) then (inputIdx2proc st)[nat (counter st) := q]
      else inputIdx2proc st)"
  by (simp_all add: pass_result_def)

lemma slot_pass_result:
  assumes "inv_shape input mpiSize st" and "0 \<le> q" "q < mpiSize"
  shows "slot (pass_result input st q idx y) p =
     (if p = q then Some (if counter st < int (length input) then counter st else - 1)
      else slot st p)"
proof -
  from assms have "q < int (length (proc2inputIdx st))"
    by (simp add: inv_shape_def)
  with assms(2) show ?thesis
    by (simp add: slot_def pass_result_fields vec_get_update)
qed

lemma loop_measure_pass:
  assumes "0 < N_activeProc st"
  shows "loop_measure input (pass_result input st q idx y) < loop_measure input st"
  using assms by (simp add: loop_measure_def pass_result_fields)

lemma filter_remove_one:
  "distinct xs \<Longrightarrow> q \<in> set xs \<Longrightarrow> P q \<Longrightarrow>
     Suc (length (filter (\<lambda>p. p \<noteq> q \<and> P p) xs)) = length (filter P xs)"
proof (induction xs)
  case Nil
  then show ?case by simp
next
  case (Cons x xs)
  show ?case
  proof (cases "x = q")
    case True
    with Cons.prems have "q \<notin> set xs" by simp
    then have "filter (\<lambda>p. p \<noteq> q \<and> P p) xs = filter P xs"
      by (intro filter_cong) auto
    with True Cons.prems show ?thesis by simp
  next
    case False
    with Cons show ?thesis by simp
  qed
qed

lemma inv_shape_pass:
  assumes "inv_shape input mpiSize st"
  shows "inv_shape input mpiSize (pass_result input st q idx y)"
  using assms by (simp add: inv_shape_def pass_result_fields)

lemma inv_slots_pass:
  assumes shape: "inv_shape input mpiSize st" and slots: "inv_slots mpiSize st"
    and q: "1 \<le> q" "q < mpiSize"
  shows "inv_slots mpiSize (pass_result input st q idx y)"
  unfolding inv_slots_def
proof (intro allI impI)
  fix p assume p: "1 \<le> p \<and> p < mpiSize"
  from shape have cnt: "0 \<le> counter st" by (simp add: inv_shape_def)
  from q have q0: "0 \<le> q" by simp
  show "\<exists>s. slot (pass_result input st q idx y) p = Some s
      \<and> (s = - 1 \<or> 0 \<le> s \<and> s < counter (pass_result input st q idx y))"
  proof (cases "p = q")
    case True
    with cnt show ?thesis
      by (simp add: slot_pass_result [OF shape q0 q(2)] pass_result_fields)
  next
    case False
    from slots p obtain s where "slot st p = Some s" "s = - 1 \<or> 0 \<le> s \<and> s < counter st"
      unfolding inv_slots_def by blast
    with False show ?thesis
      by (auto simp: slot_pass_result [OF shape q0 q(2)] pass_result_fields)
  qed
qed

lemma inv_count_pass:
  assumes shape: "inv_shape input mpiSize st" and count: "inv_count mpiSize st"
    and q: "1 \<le> q" "q < mpiSize" and slot: "slot st q = Some idx" and idx: "0 \<le> idx"
  shows "inv_count mpiSize (pass_result input st q idx y)"
proof -
  from shape have cnt: "0 \<le> counter st" by (simp add: inv_shape_def)
  from q have q0: "0 \<le> q" by simp
  note slot' = slot_pass_result [OF shape q0 q(2)]
  show ?thesis
  proof (cases "counter st < int (length input)")
    case True
    have "filter (\<lambda>p. slot (pass_result input st q idx y) p \<noteq> Some (- 1)) [1..mpiSize - 1]
        = filter (\<lambda>p. slot st p \<noteq> Some (- 1)) [1..mpiSize - 1]"
      using True cnt slot idx by (intro filter_cong) (auto simp: slot')
    with True count show ?thesis
      by (simp add: inv_count_def active_workers_def pass_result_fields)
  next
    case False
    have "filter (\<lambda>p. slot (pass_result input st q idx y) p \<noteq> Some (- 1)) [1..mpiSize - 1]
        = filter (\<lambda>p. p \<noteq> q \<and> slot st p \<noteq> Some (- 1)) [1..mpiSize - 1]"
      using False by (intro filter_cong) (auto simp: slot')
    moreover have "Suc (length (filter (\<lambda>p. p \<noteq> q \<and> slot st p \<noteq> Some (- 1)) [1..mpiSize - 1]))
        = length (filter (\<lambda>p. slot st p \<noteq> Some (- 1)) [1..mpiSize - 1])"
      using q slot idx by (intro filter_remove_one) auto
    ultimately show ?thesis
      using False count by (simp add: inv_count_def active_workers_def pass_result_fields)
  qed
qed

lemma inv_mail_pass:
  assumes shape: "inv_shape input mpiSize st" and mail: "inv_mail input mpiSize st"
    and q: "1 \<le> q" "q < mpiSize"
    and slot: "slot st q = Some idx" and idx: "0 \<le> idx" "idx < counter st"
  shows "inv_mail input mpiSize (pass_result input st q idx y)"
  unfolding inv_mail_def
proof (intro allI impI)
  fix p s
  assume p: "1 \<le> p \<and> p < mpiSize \<and> slot (pass_result input st q idx y) p = Some s"
  from shape have cnt: "0 \<le> counter st" "counter st \<le> int (length input)"
    and input: "\<forall>x \<in> set input. 0 \<le> x"
    by (simp_all add: inv_shape_def)
  from q have q0: "0 \<le> q" by simp
  note slot' = slot_pass_result [OF shape q0 q(2)]
  let ?st' = "pass_result input st q idx y"
  show "\<exists>ts. mailbox (trace ?st') p = ts @ [if s = - 1 then errValue else input ! nat s]
      \<and> (\<forall>x \<in> set ts. 0 \<le> x) \<and> received_from (trace ?st') p = length ts"
  proof (cases "p = q")
    case False
    with p have "slot st p = Some s" by (simp add: slot')
    with mail p obtain ts where
      "mailbox (trace st) p = ts @ [if s = - 1 then errValue else input ! nat s]"
      "\<forall>x \<in> set ts. 0 \<le> x" "received_from (trace st) p = length ts"
      unfolding inv_mail_def by blast
    with False show ?thesis
      by (simp add: pass_result_fields trace_simps)
  next
    case True
    from mail q slot idx obtain ts where ts:
      "mailbox (trace st) q = ts @ [input ! nat idx]"
      "\<forall>x \<in> set ts. 0 \<le> x" "received_from (trace st) q = length ts"
      unfolding inv_mail_def by fastforce
    from idx cnt input have "0 \<le> input ! nat idx"
      by simp
    with ts(2) have nonneg: "\<forall>x \<in> set (ts @ [input ! nat idx]). 0 \<le> x"
      by simp
    from True p have s: "s = (if counter st < int (length input) then counter st else - 1)"
      by (simp add: slot')
    have "mailbox (trace ?st') q = (ts @ [input ! nat idx]) @ [if s = - 1 then errValue else input ! nat s]"
      using s cnt ts(1) by (simp add: pass_result_fields trace_simps)
    moreover have "received_from (trace ?st') q = length (ts @ [input ! nat idx])"
      using ts(3) by (simp add: pass_result_fields trace_simps)
    ultimately show ?thesis
      using nonneg True by blast
  qed
qed

lemma master_inv_pass:
  assumes inv: "master_inv input mpiSize st" and q: "1 \<le> q" "q < mpiSize"
    and slot: "slot st q = Some idx" and idx: "0 \<le> idx" "idx < counter st"
  shows "master_inv input mpiSize (pass_result input st q idx y)"
proof -
  from inv have parts: "inv_shape input mpiSize st" "inv_slots mpiSize st"
    "inv_count mpiSize st" "inv_mail input mpiSize st"
    by (simp_all add: master_inv_def)
  show ?thesis
    unfolding master_inv_def
    by (intro conjI inv_shape_pass [OF parts(1)] inv_slots_pass [OF parts(1,2) q]
        inv_count_pass [OF parts(1,3) q slot idx(1)] inv_mail_pass [OF parts(1,4) q slot idx])
qed

subsection \<open>Running the loop\<close>

lemma main_loop_invariant:
  assumes inv: "master_inv input mpiSize st" and P: "P st"
    and step: "\<And>s q idx. master_inv input mpiSize s \<Longrightarrow> P s \<Longrightarrow> 0 < N_activeProc s
        \<Longrightarrow> 1 \<le> q \<Longrightarrow> q < mpiSize \<Longrightarrow> slot s q = Some idx \<Longrightarrow> 0 \<le> idx \<Longrightarrow> idx < counter s
        \<Longrightarrow> P (pass_result input s q idx (func_expensive (input ! nat idx)))"
  shows "\<exists>st'. main_loop input mpiSize cs st = Finished st'
           \<and> master_inv input mpiSize st' \<and> P st' \<and> N_activeProc st' = 0"
  using inv P
proof (induction "loop_measure input st" arbitrary: st cs rule: less_induct)
  case less
  show ?case
  proof (cases "0 < N_activeProc st")
    case False
    moreover from less.prems(1) have "0 \<le> N_activeProc st"
      by (simp add: master_inv_def inv_count_def)
    ultimately have "N_activeProc st = 0" by simp
    with less.prems show ?thesis
      by (subst main_loop.simps) simp
  next
    case True
    from loop_pass_result [OF less.prems(1) True, of "choice cs"] obtain q idx where
      q: "1 \<le> q" "q < mpiSize" and idx: "slot st q = Some idx" "0 \<le> idx" "idx < counter st"
      and pass: "loop_pass input mpiSize (choice cs) st =
          Next (pass_result input st q idx (func_expensive (input ! nat idx)))"
      by blast
    let ?st' = "pass_result input st q idx (func_expensive (input ! nat idx))"
    have "\<exists>st''. main_loop input mpiSize (tl cs) ?st' = Finished st''
        \<and> master_inv input mpiSize st'' \<and> P st'' \<and> N_activeProc st'' = 0"
      by (rule less.hyps [OF loop_measure_pass [OF True] master_inv_pass [OF less.prems(1) q idx]
            step [OF less.prems True q idx]])
    with True pass show ?thesis
      by (subst main_loop.simps) simp
  qed
qed


lemma main_loop_last_point:
  assumes inv: "master_inv input mpiSize st"
  shows "main_loop input mpiSize cs st = Finished (last (loop_points input mpiSize cs st))"
  using inv
proof (induction "loop_measure input st" arbitrary: st cs rule: less_induct)
  case less
  show ?case
  proof (cases "0 < N_activeProc st")
    case False
    then show ?thesis
      by (subst main_loop.simps, subst loop_points.simps) simp
  next
    case True
    from loop_pass_result [OF less.prems(1) True, of "choice cs"] obtain q idx where
      q: "1 \<le> q" "q < mpiSize" and idx: "slot st q = Some idx" "0 \<le> idx" "idx < counter st"
      and pass: "loop_pass input mpiSize (choice cs) st =
          Next (pass_result input st q idx (func_expensive (input ! nat idx)))"
      by blast
    let ?st' = "pass_result input st q idx (func_expensive (input ! nat idx))"
    have "main_loop input mpiSize (tl cs) ?st' = Finished (last (loop_points input mpiSize (tl cs) ?st'))"
      by (rule less.hyps [OF loop_measure_pass [OF True] master_inv_pass [OF less.prems(1) q idx]])
    moreover have "loop_points input mpiSize (tl cs) ?st' \<noteq> []"
      by (subst loop_points.simps) simp
    ultimately show ?thesis
      using True pass by (subst main_loop.simps, subst loop_points.simps) simp
  qed
qed


subsection \<open>The start-up loop\<close>

lemma upto_filter_le:
  "0 \<le> k \<Longrightarrow> k \<le> w \<Longrightarrow> filter (\<lambda>p. p \<le> k) [1..w] = [1..k]"
proof -
  assume k: "0 \<le> k" "k \<le> w"
  show ?thesis
  proof (cases "k = 0")
    case True
    then show ?thesis by (simp add: filter_empty_conv)
  next
    case False
    with k have "[1..w] = [1..k] @ [k + 1..w]"
      by (intro upto_split2) simp_all
    moreover have "filter (\<lambda>p. p \<le> k) [1..k] = [1..k]"
      by (simp add: filter_id_conv)
    moreover have "filter (\<lambda>p. p \<le> k) [k + 1..w] = []"
      by (simp add: filter_empty_conv)
    ultimately show ?thesis by simp
  qed
qed

lemma concat_map_empty: "(\<And>x. x \<in> set xs \<Longrightarrow> g x = []) \<Longrightarrow> concat (map g xs) = []"
  by (induction xs) simp_all

lemma concat_map_single:
  assumes "a \<le> p" "p \<le> b" and "\<And>q. q \<noteq> p \<Longrightarrow> g q = []"
  shows "concat (map g [a..b]) = g p"
proof -
  from assms(1,2) have split: "[a..b] = [a..p - 1] @ p # [p + 1..b]"
    by (rule upto_split3)
  have below: "concat (map g [a..p - 1]) = []"
    by (rule concat_map_empty) (auto intro: assms(3))
  have above: "concat (map g [p + 1..b]) = []"
    by (rule concat_map_empty) (auto intro: assms(3))
  show ?thesis
    unfolding split by (simp add: below above)
qed

lemma startup_loop_result:
  "1 \<le> k \<Longrightarrow> k \<le> mpiSize \<Longrightarrow> 0 \<le> kmax \<Longrightarrow> kmax \<le> int (length input)
   \<Longrightarrow> length (inputIdx2proc st) = length input
   \<Longrightarrow> int (length (proc2inputIdx st)) = mpiSize
   \<Longrightarrow> counter st = min (k - 1) kmax
   \<Longrightarrow> \<exists>st'. startup_loop input kmax mpiSize k st = Some st'
         \<and> counter st' = min (mpiSize - 1) kmax
         \<and> trace st' = trace st @ map (\<lambda>p. if p \<le> kmax then Send_Task p (p - 1) (input ! nat (p - 1))
                                          else Send_Term p) [k..mpiSize - 1]
         \<and> output_vec st' = output_vec st
         \<and> N_activeProc st' = N_activeProc st
         \<and> length (inputIdx2proc st') = length input
         \<and> int (length (proc2inputIdx st')) = mpiSize
         \<and> (\<forall>p. k \<le> p \<and> p < mpiSize \<longrightarrow> slot st' p = Some (if p \<le> kmax then p - 1 else - 1))
         \<and> (\<forall>p. p < k \<longrightarrow> slot st' p = slot st p)"
proof (induction input kmax mpiSize k st rule: startup_loop.induct)
  case (1 input kmax mpiSize k st)
  let ?ev = "\<lambda>p. if p \<le> kmax then Send_Task p (p - 1) (input ! nat (p - 1)) else Send_Term p"
  show ?case
  proof (cases "k < mpiSize")
    case False
    with "1.prems" have "k = mpiSize" by simp
    with "1.prems" show ?thesis
      by (subst startup_loop.simps) auto
  next
    case True
    show ?thesis
    proof (cases "counter st < kmax")
      case task: True
      with "1.prems" have k: "k \<le> kmax" "counter st = k - 1"
        by simp_all
      define st1 where "st1 = st\<lparr>trace := trace st @ [Send_Task k (counter st) (input ! nat (counter st))],
          inputIdx2proc := (inputIdx2proc st)[nat (counter st) := k],
          proc2inputIdx := (proc2inputIdx st)[nat k := counter st],
          counter := counter st + 1\<rparr>"
      from k "1.prems" True have acc:
        "vec_get input (counter st) = Some (input ! nat (counter st))"
        "vec_set (inputIdx2proc st) (counter st) k = Some ((inputIdx2proc st)[nat (counter st) := k])"
        "vec_set (proc2inputIdx st) k (counter st) = Some ((proc2inputIdx st)[nat k := counter st])"
        by (simp_all add: vec_get_def vec_set_def)
      have "\<exists>st'. startup_loop input kmax mpiSize (k + 1) st1 = Some st'
         \<and> counter st' = min (mpiSize - 1) kmax
         \<and> trace st' = trace st1 @ map ?ev [k + 1..mpiSize - 1]
         \<and> output_vec st' = output_vec st1
         \<and> N_activeProc st' = N_activeProc st1
         \<and> length (inputIdx2proc st') = length input
         \<and> int (length (proc2inputIdx st')) = mpiSize
         \<and> (\<forall>p. k + 1 \<le> p \<and> p < mpiSize \<longrightarrow> slot st' p = Some (if p \<le> kmax then p - 1 else - 1))
         \<and> (\<forall>p. p < k + 1 \<longrightarrow> slot st' p = slot st1 p)"
        unfolding st1_def
        using "1.prems" True k
        by (intro "1.IH"(1) [OF True task acc]) simp_all
      then obtain st' where st': "startup_loop input kmax mpiSize (k + 1) st1 = Some st'"
        "counter st' = min (mpiSize - 1) kmax"
        "trace st' = trace st1 @ map ?ev [k + 1..mpiSize - 1]"
        "output_vec st' = output_vec st1" "N_activeProc st' = N_activeProc st1"
        "length (inputIdx2proc st') = length input" "int (length (proc2inputIdx st')) = mpiSize"
        "\<forall>p. k + 1 \<le> p \<and> p < mpiSize \<longrightarrow> slot st' p = Some (if p \<le> kmax then p - 1 else - 1)"
        "\<forall>p. p < k + 1 \<longrightarrow> slot st' p = slot st1 p"
        by blast
      have run: "startup_loop input kmax mpiSize k st = Some st'"
        using True task acc st'(1) unfolding st1_def
        by (subst startup_loop.simps) simp
      have slot1: "slot st1 p = (if p = k then Some (k - 1) else slot st p)" for p
        using "1.prems" True k by (simp add: st1_def slot_def vec_get_update)
      from True have "[k..mpiSize - 1] = k # [k + 1..mpiSize - 1]"
        by (intro upto_rec1) simp
      with st'(3) k have tr: "trace st' = trace st @ map ?ev [k..mpiSize - 1]"
        by (simp add: st1_def)
      have slots: "\<forall>p. k \<le> p \<and> p < mpiSize \<longrightarrow> slot st' p = Some (if p \<le> kmax then p - 1 else - 1)"
      proof (intro allI impI)
        fix p assume p: "k \<le> p \<and> p < mpiSize"
        show "slot st' p = Some (if p \<le> kmax then p - 1 else - 1)"
        proof (cases "p = k")
          case True
          with st'(9) slot1 k show ?thesis by simp
        next
          case False
          with p st'(8) show ?thesis by simp
        qed
      qed
      have old: "\<forall>p. p < k \<longrightarrow> slot st' p = slot st p"
        using st'(9) slot1 by simp
      from run st'(2,4,5,6,7) tr slots old show ?thesis
        by (simp add: st1_def)
    next
      case stop: False
      with "1.prems" have k: "kmax < k" "counter st = kmax"
        by simp_all
      define st1 where "st1 = st\<lparr>trace := trace st @ [Send_Term k],
          proc2inputIdx := (proc2inputIdx st)[nat k := - 1]\<rparr>"
      from "1.prems" True have acc:
        "vec_set (proc2inputIdx st) k (- 1) = Some ((proc2inputIdx st)[nat k := - 1])"
        by (simp add: vec_set_def)
      have "\<exists>st'. startup_loop input kmax mpiSize (k + 1) st1 = Some st'
         \<and> counter st' = min (mpiSize - 1) kmax
         \<and> trace st' = trace st1 @ map ?ev [k + 1..mpiSize - 1]
         \<and> output_vec st' = output_vec st1
         \<and> N_activeProc st' = N_activeProc st1
         \<and> length (inputIdx2proc st') = length input
         \<and> int (length (proc2inputIdx st')) = mpiSize
         \<and> (\<forall>p. k + 1 \<le> p \<and> p < mpiSize \<longrightarrow> slot st' p = Some (if p \<le> kmax then p - 1 else - 1))
         \<and> (\<forall>p. p < k + 1 \<longrightarrow> slot st' p = slot st1 p)"
        unfolding st1_def
        using "1.prems" True k
        by (intro "1.IH"(2) [OF True stop acc]) simp_all
      then obtain st' where st': "startup_loop input kmax mpiSize (k + 1) st1 = Some st'"
        "counter st' = min (mpiSize - 1) kmax"
        "trace st' = trace st1 @ map ?ev [k + 1..mpiSize - 1]"
        "output_vec st' = output_vec st1" "N_activeProc st' = N_activeProc st1"
        "length (inputIdx2proc st') = length input" "int (length (proc2inputIdx st')) = mpiSize"
        "\<forall>p. k + 1 \<le> p \<and> p < mpiSize \<longrightarrow> slot st' p = Some (if p \<le> kmax then p - 1 else - 1)"
        "\<forall>p. p < k + 1 \<longrightarrow> slot st' p = slot st1 p"
        by blast
      have run: "startup_loop input kmax mpiSize k st = Some st'"
        using True stop acc st'(1) unfolding st1_def
        by (subst startup_loop.simps) simp
      have slot1: "slot st1 p = (if p = k then Some (- 1) else slot st p)" for p
        using "1.prems" True by (simp add: st1_def slot_def vec_get_update)
      from True have "[k..mpiSize - 1] = k # [k + 1..mpiSize - 1]"
        by (intro upto_rec1) simp
      with st'(3) k have tr: "trace st' = trace st @ map ?ev [k..mpiSize - 1]"
        by (simp add: st1_def)
      have slots: "\<forall>p. k \<le> p \<and> p < mpiSize \<longrightarrow> slot st' p = Some (if p \<le> kmax then p - 1 else - 1)"
      proof (intro allI impI)
        fix p assume p: "k \<le> p \<and> p < mpiSize"
        show "slot st' p = Some (if p \<le> kmax then p - 1 else - 1)"
        proof (cases "p = k")
          case True
          with st'(9) slot1 k show ?thesis by simp
        next
          case False
          with p st'(8) show ?thesis by simp
        qed
      qed
      have old: "\<forall>p. p < k \<longrightarrow> slot st' p = slot st p"
        using st'(9) slot1 by simp
      from run st'(2,4,5,6,7) tr slots old show ?thesis
        by (simp add: st1_def)
    qed
  qed
qed

subsection \<open>The state the main loop is entered with\<close>

lemma mailbox_startup:
  assumes "1 \<le> p" "p < mpiSize"
  shows "mailbox (startup_sends input k mpiSize) p = [if p \<le> k then input ! nat (p - 1) else errValue]"
proof -
  let ?g = "\<lambda>q. sent_to p (if q \<le> k then Send_Task q (q - 1) (input ! nat (q - 1)) else Send_Term q)"
  have "mailbox (startup_sends input k mpiSize) p = concat (map ?g [1..mpiSize - 1])"
    by (simp add: mailbox_def startup_sends_def o_def)
  also have "\<dots> = ?g p"
    using assms by (intro concat_map_single) simp_all
  finally show ?thesis by simp
qed

lemma received_from_startup: "received_from (startup_sends input k mpiSize) p = 0"
  by (simp add: received_from_def startup_sends_def filter_empty_conv)

lemma receives_startup: "receives (startup_sends input k mpiSize) = 0"
  by (simp add: receives_def startup_sends_def filter_empty_conv)

lemma map_pred_upto: "map (\<lambda>p. p - 1) [1..int n] = [0..int n - 1]"
proof (induction n)
  case 0
  show ?case by simp
next
  case (Suc n)
  have "[1..1 + int n] = [1..1 + int n - 1] @ [1 + int n]"
    by (rule upto_rec2) simp
  moreover have "[0..int n] = [0..int n - 1] @ [int n]"
    by (rule upto_rec2) simp
  ultimately show ?case using Suc by simp
qed

lemma task_indices_startup:
  assumes "0 \<le> k" "k \<le> mpiSize - 1"
  shows "task_indices (startup_sends input k mpiSize) = [0..k - 1]"
proof -
  let ?g = "\<lambda>p. task_index (if p \<le> k then Send_Task p (p - 1) (input ! nat (p - 1)) else Send_Term p)"
  have eq: "task_indices (startup_sends input k mpiSize) = concat (map ?g [1..mpiSize - 1])"
    by (simp add: task_indices_def startup_sends_def o_def)
  show ?thesis
  proof (cases "k = 0")
    case True
    have "concat (map ?g [1..mpiSize - 1]) = []"
      using True by (intro concat_map_empty) simp
    with eq True show ?thesis by simp
  next
    case False
    with assms have split: "[1..mpiSize - 1] = [1..k] @ [k + 1..mpiSize - 1]"
      by (intro upto_split2) simp_all
    have above: "concat (map ?g [k + 1..mpiSize - 1]) = []"
      by (intro concat_map_empty) simp
    have "map ?g [1..k] = map (\<lambda>p. [p - 1]) [1..k]"
      by (intro map_cong) simp_all
    then have "concat (map ?g [1..k]) = map (\<lambda>p. p - 1) [1..k]"
      by (simp add: concat_map_singleton del: map_eq_conv)
    also have "\<dots> = [0..k - 1]"
      using map_pred_upto [of "nat k"] assms(1) by simp
    finally show ?thesis
      using eq above by (simp add: split)
  qed
qed

lemma master_init_result:
  assumes N: "0 \<le> N" and size: "2 \<le> mpiSize" and len: "int (length input) = N"
    and input: "\<forall>x \<in> set input. 0 \<le> x"
  shows "\<exists>st. master_init input N mpiSize = Some st
           \<and> counter st = min (mpiSize - 1) N
           \<and> N_activeProc st = min (mpiSize - 1) N
           \<and> trace st = startup_sends input (min (mpiSize - 1) N) mpiSize
           \<and> output_vec st = replicate (nat N) 0
           \<and> (\<forall>p. 1 \<le> p \<and> p < mpiSize \<longrightarrow>
                  slot st p = Some (if p \<le> min (mpiSize - 1) N then p - 1 else - 1))
           \<and> master_inv input mpiSize st"
proof -
  define kmax where "kmax = min (mpiSize - 1) N"
  define st0 where "st0 = \<lparr>counter = 0, output_vec = replicate (nat N) 0,
      inputIdx2proc = replicate (nat N) 0, proc2inputIdx = replicate (nat mpiSize) 0,
      N_activeProc = 0, trace = []\<rparr>"
  from N size len have kmax: "0 \<le> kmax" "kmax \<le> int (length input)" "kmax \<le> mpiSize - 1"
    by (simp_all add: kmax_def)
  have "\<exists>st'. startup_loop input kmax mpiSize 1 st0 = Some st'
         \<and> counter st' = min (mpiSize - 1) kmax
         \<and> trace st' = trace st0 @ map (\<lambda>p. if p \<le> kmax then Send_Task p (p - 1) (input ! nat (p - 1))
                                          else Send_Term p) [1..mpiSize - 1]
         \<and> output_vec st' = output_vec st0
         \<and> N_activeProc st' = N_activeProc st0
         \<and> length (inputIdx2proc st') = length input
         \<and> int (length (proc2inputIdx st')) = mpiSize
         \<and> (\<forall>p. 1 \<le> p \<and> p < mpiSize \<longrightarrow> slot st' p = Some (if p \<le> kmax then p - 1 else - 1))
         \<and> (\<forall>p. p < 1 \<longrightarrow> slot st' p = slot st0 p)"
    using N size len kmax by (intro startup_loop_result) (simp_all add: st0_def)
  then obtain st' where st': "startup_loop input kmax mpiSize 1 st0 = Some st'"
    "counter st' = kmax" "trace st' = startup_sends input kmax mpiSize"
    "output_vec st' = replicate (nat N) 0"
    "length (inputIdx2proc st') = length input" "int (length (proc2inputIdx st')) = mpiSize"
    "\<forall>p. 1 \<le> p \<and> p < mpiSize \<longrightarrow> slot st' p = Some (if p \<le> kmax then p - 1 else - 1)"
    using kmax by (auto simp: st0_def startup_sends_def)
  define st where "st = st'\<lparr>N_activeProc := counter st'\<rparr>"
  have init: "master_init input N mpiSize = Some st"
    using N size len st'(1)
    by (simp add: master_init_def new_vector_def kmax_def st0_def st_def)
  have fields: "counter st = kmax" "N_activeProc st = kmax"
    "trace st = startup_sends input kmax mpiSize" "output_vec st = replicate (nat N) 0"
    "length (inputIdx2proc st) = length input" "int (length (proc2inputIdx st)) = mpiSize"
    using st' by (simp_all add: st_def)
  have slots: "\<forall>p. 1 \<le> p \<and> p < mpiSize \<longrightarrow> slot st p = Some (if p \<le> kmax then p - 1 else - 1)"
    using st'(7) by (simp add: st_def slot_def)
  from fields(6) size have "length (proc2inputIdx st) = nat mpiSize"
    by linarith
  moreover from len have "nat N = length input"
    by auto
  ultimately have shape: "inv_shape input mpiSize st"
    using fields kmax size input by (simp add: inv_shape_def)
  have slots_inv: "inv_slots mpiSize st"
    unfolding inv_slots_def using slots fields(1) by auto
  have "filter (\<lambda>p. slot st p \<noteq> Some (- 1)) [1..mpiSize - 1] = filter (\<lambda>p. p \<le> kmax) [1..mpiSize - 1]"
    using slots by (intro filter_cong) auto
  also have "\<dots> = [1..kmax]"
    using kmax by (intro upto_filter_le) simp_all
  finally have count: "inv_count mpiSize st"
    using kmax fields(2) by (simp add: inv_count_def active_workers_def)
  have mail: "inv_mail input mpiSize st"
    unfolding inv_mail_def
  proof (intro allI impI)
    fix p s assume p: "1 \<le> p \<and> p < mpiSize \<and> slot st p = Some s"
    with slots have s: "s = (if p \<le> kmax then p - 1 else - 1)" by auto
    from p have "mailbox (trace st) p = [if p \<le> kmax then input ! nat (p - 1) else errValue]"
      by (simp add: fields(3) mailbox_startup)
    with s p have "mailbox (trace st) p = [] @ [if s = - 1 then errValue else input ! nat s]"
      by auto
    moreover have "received_from (trace st) p = length ([] :: int list)"
      by (simp add: fields(3) received_from_startup)
    ultimately show "\<exists>ts. mailbox (trace st) p = ts @ [if s = - 1 then errValue else input ! nat s]
        \<and> (\<forall>x\<in>set ts. 0 \<le> x) \<and> received_from (trace st) p = length ts"
      by (intro exI [of _ "[]"]) simp
  qed
  from shape slots_inv count mail have "master_inv input mpiSize st"
    by (simp add: master_inv_def)
  with init fields slots show ?thesis
    unfolding kmax_def by blast
qed


subsection \<open>What a pass keeps\<close>

lemma task_indices_append: "task_indices (tr @ tr') = task_indices tr @ task_indices tr'"
  by (simp add: task_indices_def)

lemma receives_append: "receives (tr @ tr') = receives tr + receives tr'"
  by (simp add: receives_def)

lemma responses_append: "responses tr \<Longrightarrow> responses tr' \<Longrightarrow> responses (tr @ tr')"
  by (induction tr rule: responses.induct) simp_all

lemma task_indices_pass:
  assumes "inv_shape input mpiSize st" and "task_indices (trace st) = [0..counter st - 1]"
  shows "task_indices (trace (pass_result input st q idx y))
       = [0..counter (pass_result input st q idx y) - 1]"
proof -
  from assms(1) have "0 \<le> counter st" by (simp add: inv_shape_def)
  then have "[0..counter st] = [0..counter st - 1] @ [counter st]"
    by (rule upto_rec2)
  with assms(2) show ?thesis
    by (simp add: pass_result_fields task_indices_append task_indices_def)
qed

lemma receives_pass:
  assumes "int (receives (trace st)) = counter st - N_activeProc st"
  shows "int (receives (trace (pass_result input st q idx y)))
       = counter (pass_result input st q idx y) - N_activeProc (pass_result input st q idx y)"
  using assms by (simp add: pass_result_fields receives_append receives_def)

lemma progress_pass:
  assumes "inv_shape input mpiSize st"
    and "N_activeProc st = k \<or> counter st = int (length input)"
  shows "N_activeProc (pass_result input st q idx y) = k
       \<or> counter (pass_result input st q idx y) = int (length input)"
  using assms by (auto simp: pass_result_fields inv_shape_def)

lemma responses_pass:
  assumes "\<exists>L. trace st = S @ L \<and> responses L"
  shows "\<exists>L. trace (pass_result input st q idx y) = S @ L \<and> responses L"
proof -
  from assms obtain L where L: "trace st = S @ L" "responses L" by blast
  let ?new = "[Recv q y, if counter st < int (length input)
      then Send_Task q (counter st) (input ! nat (counter st)) else Send_Term q]"
  have "responses ?new" by simp
  with L(2) have "responses (L @ ?new)" by (rule responses_append)
  moreover from L(1) have "trace (pass_result input st q idx y) = S @ (L @ ?new)"
    by (simp add: pass_result_fields)
  ultimately show ?thesis by blast
qed

lemma sends_pass:
  assumes "\<forall>d i x. Send_Task d i x \<in> set (trace st) \<longrightarrow> 1 \<le> d \<and> d < mpiSize \<and> x = input ! nat i"
    and "1 \<le> q" "q < mpiSize"
  shows "\<forall>d i x. Send_Task d i x \<in> set (trace (pass_result input st q idx y)) \<longrightarrow>
           1 \<le> d \<and> d < mpiSize \<and> x = input ! nat i"
  using assms by (auto simp: pass_result_fields)

lemma output_pass:
  assumes shape: "inv_shape input mpiSize st" and q: "1 \<le> q" "q < mpiSize"
    and slot: "slot st q = Some idx" and idx: "0 \<le> idx" "idx < counter st"
    and out: "\<forall>i. 0 \<le> i \<and> i < counter st \<and> (\<forall>p. 1 \<le> p \<and> p < mpiSize \<longrightarrow> slot st p \<noteq> Some i) \<longrightarrow>
        vec_get (output_vec st) i = Some (func_expensive (input ! nat i))"
  shows "\<forall>i. 0 \<le> i \<and> i < counter (pass_result input st q idx (func_expensive (input ! nat idx)))
        \<and> (\<forall>p. 1 \<le> p \<and> p < mpiSize \<longrightarrow>
              slot (pass_result input st q idx (func_expensive (input ! nat idx))) p \<noteq> Some i) \<longrightarrow>
        vec_get (output_vec (pass_result input st q idx (func_expensive (input ! nat idx)))) i
          = Some (func_expensive (input ! nat i))"
proof (intro allI impI)
  let ?st' = "pass_result input st q idx (func_expensive (input ! nat idx))"
  fix i
  assume i: "0 \<le> i \<and> i < counter ?st' \<and> (\<forall>p. 1 \<le> p \<and> p < mpiSize \<longrightarrow> slot ?st' p \<noteq> Some i)"
  from shape have cnt: "0 \<le> counter st" "counter st \<le> int (length input)"
    and len: "length (output_vec st) = length input"
    by (simp_all add: inv_shape_def)
  from q have q0: "0 \<le> q" by simp
  note slot' = slot_pass_result [OF shape q0 q(2)]
  from idx cnt len have in_range: "0 \<le> idx" "idx < int (length (output_vec st))"
    by simp_all
  show "vec_get (output_vec ?st') i = Some (func_expensive (input ! nat i))"
  proof (cases "i = idx")
    case True
    with in_range show ?thesis
      by (simp add: pass_result_fields vec_get_update)
  next
    case False
    from i q have "slot ?st' q \<noteq> Some i" by blast
    then have not_new: "counter st < int (length input) \<longrightarrow> i \<noteq> counter st"
      by (auto simp: slot')
    with i have less: "i < counter st"
      by (auto simp: pass_result_fields split: if_splits)
    have "slot st p \<noteq> Some i" if p: "1 \<le> p \<and> p < mpiSize" for p
    proof (cases "p = q")
      case True
      with slot False show ?thesis by simp
    next
      case False
      with i p have "slot ?st' p \<noteq> Some i" by blast
      with False show ?thesis by (simp add: slot')
    qed
    with out i less have "vec_get (output_vec st) i = Some (func_expensive (input ! nat i))"
      by blast
    with False in_range show ?thesis
      by (simp add: pass_result_fields vec_get_update)
  qed
qed

lemma no_active_slots:
  assumes inv: "master_inv input mpiSize st" and "N_activeProc st = 0"
    and p: "1 \<le> p" "p < mpiSize"
  shows "slot st p = Some (- 1)"
proof -
  from assms(1,2) have "active_workers mpiSize st = []"
    by (simp add: master_inv_def inv_count_def)
  then have "\<forall>q \<in> set [1..mpiSize - 1]. \<not> slot st q \<noteq> Some (- 1)"
    unfolding active_workers_def filter_empty_conv .
  with p show ?thesis by simp
qed


subsection \<open>A whole run\<close>

lemma master_run:
  assumes N: "0 \<le> N" and size: "2 \<le> mpiSize" and len: "int (length input) = N"
    and input: "\<forall>x \<in> set input. 0 \<le> x"
  shows "\<exists>st1 st L. master_init input N mpiSize = Some st1
           \<and> main_loop input mpiSize cs st1 = Finished st
           \<and> master_inv input mpiSize st
           \<and> N_activeProc st = 0 \<and> counter st = N
           \<and> trace st = startup_sends input (min (mpiSize - 1) N) mpiSize @ L \<and> responses L
           \<and> task_indices (trace st) = [0..N - 1]
           \<and> int (receives (trace st)) = N
           \<and> (\<forall>d i x. Send_Task d i x \<in> set (trace st) \<longrightarrow> 1 \<le> d \<and> d < mpiSize \<and> x = input ! nat i)
           \<and> output_vec st = map func_expensive input"
proof -
  define kmax where "kmax = min (mpiSize - 1) N"
  define S where "S = startup_sends input kmax mpiSize"
  define P where "P = (\<lambda>st.
      task_indices (trace st) = [0..counter st - 1]
    \<and> int (receives (trace st)) = counter st - N_activeProc st
    \<and> (N_activeProc st = kmax \<or> counter st = int (length input))
    \<and> (\<exists>L. trace st = S @ L \<and> responses L)
    \<and> (\<forall>d i x. Send_Task d i x \<in> set (trace st) \<longrightarrow> 1 \<le> d \<and> d < mpiSize \<and> x = input ! nat i)
    \<and> (\<forall>i. 0 \<le> i \<and> i < counter st \<and> (\<forall>p. 1 \<le> p \<and> p < mpiSize \<longrightarrow> slot st p \<noteq> Some i) \<longrightarrow>
          vec_get (output_vec st) i = Some (func_expensive (input ! nat i))))"
  from N size have kmax: "0 \<le> kmax" "kmax \<le> mpiSize - 1" "kmax \<le> N"
    by (simp_all add: kmax_def)
  from master_init_result [OF N size len input] obtain st1 where st1:
    "master_init input N mpiSize = Some st1" "counter st1 = kmax" "N_activeProc st1 = kmax"
    "trace st1 = S"
    "\<forall>p. 1 \<le> p \<and> p < mpiSize \<longrightarrow> slot st1 p = Some (if p \<le> kmax then p - 1 else - 1)"
    "master_inv input mpiSize st1"
    unfolding kmax_def S_def by blast
  have "P st1"
    unfolding P_def
  proof (intro conjI)
    show "task_indices (trace st1) = [0..counter st1 - 1]"
      using kmax by (simp add: st1 S_def task_indices_startup)
    show "int (receives (trace st1)) = counter st1 - N_activeProc st1"
      by (simp add: st1 S_def receives_startup)
    show "N_activeProc st1 = kmax \<or> counter st1 = int (length input)"
      by (simp add: st1)
    have "trace st1 = S @ [] \<and> responses []"
      by (simp add: st1)
    then show "\<exists>L. trace st1 = S @ L \<and> responses L" ..
    show "\<forall>d i x. Send_Task d i x \<in> set (trace st1) \<longrightarrow> 1 \<le> d \<and> d < mpiSize \<and> x = input ! nat i"
      by (auto simp: st1 S_def startup_sends_def split: if_splits)
    show "\<forall>i. 0 \<le> i \<and> i < counter st1 \<and> (\<forall>p. 1 \<le> p \<and> p < mpiSize \<longrightarrow> slot st1 p \<noteq> Some i) \<longrightarrow>
          vec_get (output_vec st1) i = Some (func_expensive (input ! nat i))"
    proof (intro allI impI)
      fix i
      assume i: "0 \<le> i \<and> i < counter st1 \<and> (\<forall>p. 1 \<le> p \<and> p < mpiSize \<longrightarrow> slot st1 p \<noteq> Some i)"
      with kmax st1(2) have "1 \<le> i + 1 \<and> i + 1 < mpiSize" "i + 1 \<le> kmax"
        by simp_all
      with st1(5) have "slot st1 (i + 1) = Some i"
        by simp
      with i \<open>1 \<le> i + 1 \<and> i + 1 < mpiSize\<close> have False
        by blast
      then show "vec_get (output_vec st1) i = Some (func_expensive (input ! nat i))" ..
    qed
  qed
  have step: "P (pass_result input s q idx (func_expensive (input ! nat idx)))"
    if inv: "master_inv input mpiSize s" and P: "P s" and "0 < N_activeProc s"
      and q: "1 \<le> q" "q < mpiSize" and slot: "slot s q = Some idx" and idx: "0 \<le> idx" "idx < counter s"
    for s q idx
  proof -
    from inv have shape: "inv_shape input mpiSize s"
      by (simp add: master_inv_def)
    from P have parts: "task_indices (trace s) = [0..counter s - 1]"
      "int (receives (trace s)) = counter s - N_activeProc s"
      "N_activeProc s = kmax \<or> counter s = int (length input)"
      "\<exists>L. trace s = S @ L \<and> responses L"
      "\<forall>d i x. Send_Task d i x \<in> set (trace s) \<longrightarrow> 1 \<le> d \<and> d < mpiSize \<and> x = input ! nat i"
      "\<forall>i. 0 \<le> i \<and> i < counter s \<and> (\<forall>p. 1 \<le> p \<and> p < mpiSize \<longrightarrow> slot s p \<noteq> Some i) \<longrightarrow>
          vec_get (output_vec s) i = Some (func_expensive (input ! nat i))"
      unfolding P_def by blast+
    show ?thesis
      unfolding P_def
      by (intro conjI task_indices_pass [OF shape parts(1)] receives_pass [OF parts(2)]
          progress_pass [OF shape parts(3)] responses_pass [OF parts(4)]
          sends_pass [OF parts(5) q] output_pass [OF shape q slot idx parts(6)])
  qed
  from main_loop_invariant [of input mpiSize st1 P cs, OF st1(6) \<open>P st1\<close> step]
  obtain st where st: "main_loop input mpiSize cs st1 = Finished st"
    "master_inv input mpiSize st" "P st" "N_activeProc st = 0"
    by blast
  from st(2) have shape: "inv_shape input mpiSize st"
    by (simp add: master_inv_def)
  then have cnt: "0 \<le> counter st" "counter st \<le> N" and out_len: "length (output_vec st) = length input"
    using len by (simp_all add: inv_shape_def)
  from st(3) have parts: "task_indices (trace st) = [0..counter st - 1]"
    "int (receives (trace st)) = counter st - N_activeProc st"
    "N_activeProc st = kmax \<or> counter st = int (length input)"
    "\<exists>L. trace st = S @ L \<and> responses L"
    "\<forall>d i x. Send_Task d i x \<in> set (trace st) \<longrightarrow> 1 \<le> d \<and> d < mpiSize \<and> x = input ! nat i"
    "\<forall>i. 0 \<le> i \<and> i < counter st \<and> (\<forall>p. 1 \<le> p \<and> p < mpiSize \<longrightarrow> slot st p \<noteq> Some i) \<longrightarrow>
        vec_get (output_vec st) i = Some (func_expensive (input ! nat i))"
    unfolding P_def by blast+
  have counter: "counter st = N"
  proof (cases "counter st = int (length input)")
    case True
    with len show ?thesis by simp
  next
    case False
    with parts(3) st(4) have "kmax = 0" by simp
    with size have "N = 0" by (simp add: kmax_def split: if_splits)
    with cnt show ?thesis by simp
  qed
  have "output_vec st = map func_expensive input"
  proof (rule nth_equalityI)
    show "length (output_vec st) = length (map func_expensive input)"
      by (simp add: out_len)
    fix i assume "i < length (output_vec st)"
    with out_len len counter have i: "0 \<le> int i \<and> int i < counter st" "i < length input"
      by simp_all
    have "slot st p \<noteq> Some (int i)" if "1 \<le> p \<and> p < mpiSize" for p
      using no_active_slots [OF st(2,4), of p] that by simp
    with parts(6) i(1) have "vec_get (output_vec st) (int i) = Some (func_expensive (input ! nat (int i)))"
      by blast
    with i(2) show "output_vec st ! i = map func_expensive input ! i"
      by (auto dest: vec_get_SomeD)
  qed
  moreover from parts(4) obtain L where "trace st = S @ L" "responses L"
    by blast
  ultimately show ?thesis
    using st1(1) st(1,2,4) counter parts(1,2,5) unfolding S_def kmax_def
    by auto
qed

lemma loop_points_length:
  assumes "master_inv input mpiSize st"
    and "N_activeProc st = 0 \<longrightarrow> counter st = int (length input)"
  shows "length (loop_points input mpiSize cs st) = Suc (loop_measure input st)"
  using assms
proof (induction "loop_measure input st" arbitrary: st cs rule: less_induct)
  case less
  from less.prems(1) have shape: "0 \<le> counter st" "counter st \<le> int (length input)"
    and count: "0 \<le> N_activeProc st"
    by (simp_all add: master_inv_def inv_shape_def inv_count_def)
  show ?case
  proof (cases "0 < N_activeProc st")
    case False
    with count less.prems(2) show ?thesis
      by (subst loop_points.simps) (simp add: loop_measure_def)
  next
    case True
    from loop_pass_result [OF less.prems(1) True, of "choice cs"] obtain q idx where
      q: "1 \<le> q" "q < mpiSize" and idx: "slot st q = Some idx" "0 \<le> idx" "idx < counter st"
      and pass: "loop_pass input mpiSize (choice cs) st =
          Next (pass_result input st q idx (func_expensive (input ! nat idx)))"
      by blast
    let ?st' = "pass_result input st q idx (func_expensive (input ! nat idx))"
    have next_measure: "Suc (loop_measure input ?st') = loop_measure input st"
      using True shape by (auto simp: loop_measure_def pass_result_fields)
    have "N_activeProc ?st' = 0 \<longrightarrow> counter ?st' = int (length input)"
      using True shape by (auto simp: pass_result_fields)
    with less.hyps [OF loop_measure_pass [OF True] master_inv_pass [OF less.prems(1) q idx]]
    have "length (loop_points input mpiSize (tl cs) ?st') = Suc (loop_measure input ?st')"
      by blast
    with True pass next_measure show ?thesis
      by (subst loop_points.simps) simp
  qed
qed

lemma lcg_run: "masterCode lcg 1 [1, 1, 0, 1] 5 3 = Finished
  \<lparr>counter = 5, output_vec = [2, 11, 2, 1, 7],
     inputIdx2proc = [1, 2, 2, 2, 1], proc2inputIdx = [0, - 1, - 1],
     N_activeProc = 0,
     trace =
       [Send_Task 1 0 1, Send_Task 2 1 10, Recv 2 11, Send_Task 2 2 1,
        Recv 2 2, Send_Task 2 3 0, Recv 1 2, Send_Task 1 4 6, Recv 2 1,
        Send_Term 2, Recv 1 7, Send_Term 1]\<rparr>"
  by code_simp

text \<open>
  C1: for \<open>N \<ge> 0\<close> tasks and \<open>W = mpiSize - 1 \<ge> 1\<close> workers, whatever the order in which
  the results arrive, \<open>masterCode\<close> finishes, and the task sends of its run carry the
  indices \<open>0, \<dots>, N - 1\<close>, each once and in this order, each to one worker with the
  input at that index. The first \<open>min W N\<close> are the start-up's; the rest of the trace
  is made of receives, each answered at once by one send to its source.
\<close>

theorem every_task_assigned_once:
  assumes "dist_contract distribution" and "0 \<le> N" and "2 \<le> mpiSize"
  shows "\<exists>input st L. inputDataGenerator distribution g N = Some input
           \<and> masterCode distribution g cs N mpiSize = Finished st
           \<and> trace st = startup_sends input (min (mpiSize - 1) N) mpiSize @ L
           \<and> task_indices (startup_sends input (min (mpiSize - 1) N) mpiSize)
               = [0..min (mpiSize - 1) N - 1]
           \<and> responses L
           \<and> task_indices (trace st) = [0..N - 1]
           \<and> (\<forall>d i x. Send_Task d i x \<in> set (trace st) \<longrightarrow>
                 1 \<le> d \<and> d < mpiSize \<and> x = input ! nat i)"
proof -
  from inputDataGenerator_range [OF assms(1,2), of g] obtain input where input:
    "inputDataGenerator distribution g N = Some input" "int (length input) = N"
    "\<forall>x \<in> set input. 0 \<le> x"
    by auto
  from master_run [OF assms(2,3) input(2,3), of cs] obtain st1 st L where run:
    "master_init input N mpiSize = Some st1" "main_loop input mpiSize cs st1 = Finished st"
    "trace st = startup_sends input (min (mpiSize - 1) N) mpiSize @ L" "responses L"
    "task_indices (trace st) = [0..N - 1]"
    "\<forall>d i x. Send_Task d i x \<in> set (trace st) \<longrightarrow> 1 \<le> d \<and> d < mpiSize \<and> x = input ! nat i"
    by blast
  from input(1) run(1,2) have "masterCode distribution g cs N mpiSize = Finished st"
    by (simp add: masterCode_def)
  moreover from assms(2,3) have "task_indices (startup_sends input (min (mpiSize - 1) N) mpiSize)
      = [0..min (mpiSize - 1) N - 1]"
    by (intro task_indices_startup) simp_all
  ultimately show ?thesis
    using input(1) run(3-6) by blast
qed

theorem every_task_assigned_once_witness:
  "dist_contract lcg \<and> (0::int) \<le> 5 \<and> (2::int) \<le> 3
   \<and> masterCode lcg 1 [1, 1, 0, 1] 5 3 = Finished
        \<lparr>counter = 5, output_vec = [2, 11, 2, 1, 7],
         inputIdx2proc = [1, 2, 2, 2, 1], proc2inputIdx = [0, - 1, - 1],
         N_activeProc = 0,
         trace =
           [Send_Task 1 0 1, Send_Task 2 1 10, Recv 2 11, Send_Task 2 2 1,
            Recv 2 2, Send_Task 2 3 0, Recv 1 2, Send_Task 1 4 6, Recv 2 1,
            Send_Term 2, Recv 1 7, Send_Term 1]\<rparr>
   \<and> (\<exists>input st L. inputDataGenerator lcg 1 5 = Some input
         \<and> masterCode lcg 1 [1, 1, 0, 1] 5 3 = Finished st
         \<and> trace st = startup_sends input 2 3 @ L
         \<and> task_indices (startup_sends input 2 3) = [0, 1]
         \<and> responses L
         \<and> task_indices (trace st) = [0, 1, 2, 3, 4])"
proof -
  have indices: "[0..1] = [0, 1 :: int]" "[0..4] = [0, 1, 2, 3, 4 :: int]"
    by code_simp+
  from every_task_assigned_once [OF lcg_contract, of 5 3 1 "[1, 1, 0, 1]"]
  obtain input st L where "inputDataGenerator lcg 1 5 = Some input"
    "masterCode lcg 1 [1, 1, 0, 1] 5 3 = Finished st"
    "trace st = startup_sends input 2 3 @ L"
    "task_indices (startup_sends input 2 3) = [0, 1]"
    "responses L" "task_indices (trace st) = [0, 1, 2, 3, 4]"
    by (auto simp: indices)
  with lcg_contract lcg_run show ?thesis
    by auto
qed

text \<open>
  C3: for \<open>N \<ge> 0\<close> and \<open>W = mpiSize - 1 \<ge> 1\<close>, whatever the order of arrival, the main
  loop ends: \<open>masterCode\<close> finishes after exactly \<open>N\<close> passes through the loop, each
  with one receive, and \<open>N_activeProc\<close> is 0 in the state the loop is left with.
\<close>

theorem main_loop_terminates:
  assumes "dist_contract distribution" and "0 \<le> N" and "2 \<le> mpiSize"
  shows "\<exists>st. masterCode distribution g cs N mpiSize = Finished st
           \<and> int (receives (trace st)) = N
           \<and> int (length (master_points distribution g cs N mpiSize)) = N + 1
           \<and> last (master_points distribution g cs N mpiSize) = st
           \<and> N_activeProc st = 0"
proof -
  from inputDataGenerator_range [OF assms(1,2), of g] obtain input where input:
    "inputDataGenerator distribution g N = Some input" "int (length input) = N"
    "\<forall>x \<in> set input. 0 \<le> x"
    by auto
  from master_init_result [OF assms(2,3) input(2,3)] obtain st1 where st1:
    "master_init input N mpiSize = Some st1" "counter st1 = min (mpiSize - 1) N"
    "N_activeProc st1 = min (mpiSize - 1) N" "master_inv input mpiSize st1"
    by blast
  from master_run [OF assms(2,3) input(2,3), of cs] st1(1) obtain st where run:
    "main_loop input mpiSize cs st1 = Finished st" "N_activeProc st = 0"
    "int (receives (trace st)) = N"
    by auto
  from st1(2,3) assms(2,3) input(2)
  have "N_activeProc st1 = 0 \<longrightarrow> counter st1 = int (length input)"
    by (auto simp: min_def split: if_splits)
  from loop_points_length [OF st1(4) this, of cs] st1(2,3) assms(2,3) input(2)
  have "int (length (loop_points input mpiSize cs st1)) = N + 1"
    by (auto simp: loop_measure_def min_def split: if_splits)
  moreover from main_loop_last_point [OF st1(4), of cs] run(1)
  have "last (loop_points input mpiSize cs st1) = st"
    by simp
  ultimately show ?thesis
    using input(1) st1(1) run by (simp add: masterCode_def master_points_def)
qed

theorem main_loop_terminates_witness:
  "dist_contract lcg \<and> (0::int) \<le> 5 \<and> (2::int) \<le> 3
   \<and> (\<exists>st. masterCode lcg 1 [1, 1, 0, 1] 5 3 = Finished st
         \<and> receives (trace st) = 5
         \<and> length (master_points lcg 1 [1, 1, 0, 1] 5 3) = 6
         \<and> N_activeProc st = 0)"
proof -
  from main_loop_terminates [OF lcg_contract, of 5 3 1 "[1, 1, 0, 1]"]
  obtain st where "masterCode lcg 1 [1, 1, 0, 1] 5 3 = Finished st"
    "receives (trace st) = 5" "length (master_points lcg 1 [1, 1, 0, 1] 5 3) = 6"
    "N_activeProc st = 0"
    by auto
  with lcg_contract show ?thesis
    by auto
qed

text \<open>
  C4: whatever the order in which the results arrive, at the end of the run position
  \<open>i\<close> of \<open>output\<close> holds the result of the task with index \<open>i\<close>: the vector is the
  task function applied to the input, element by element.
\<close>

theorem output_in_input_order:
  assumes "dist_contract distribution" and "0 \<le> N" and "2 \<le> mpiSize"
  shows "\<exists>input st. inputDataGenerator distribution g N = Some input
           \<and> masterCode distribution g cs N mpiSize = Finished st
           \<and> output_vec st = map func_expensive input
           \<and> (\<forall>i. 0 \<le> i \<and> i < N \<longrightarrow>
                 vec_get (output_vec st) i = Some (func_expensive (input ! nat i)))"
proof -
  from inputDataGenerator_range [OF assms(1,2), of g] obtain input where input:
    "inputDataGenerator distribution g N = Some input" "int (length input) = N"
    "\<forall>x \<in> set input. 0 \<le> x"
    by auto
  from master_run [OF assms(2,3) input(2,3), of cs] obtain st1 st where run:
    "master_init input N mpiSize = Some st1" "main_loop input mpiSize cs st1 = Finished st"
    "output_vec st = map func_expensive input"
    by blast
  from input(1) run(1,2) have "masterCode distribution g cs N mpiSize = Finished st"
    by (simp add: masterCode_def)
  moreover from run(3) input(2)
  have "\<forall>i. 0 \<le> i \<and> i < N \<longrightarrow> vec_get (output_vec st) i = Some (func_expensive (input ! nat i))"
    by (auto simp: vec_get_def)
  ultimately show ?thesis
    using input(1) run(3) by blast
qed

theorem output_in_input_order_witness:
  "dist_contract lcg \<and> (0::int) \<le> 5 \<and> (2::int) \<le> 3
   \<and> (\<exists>st. masterCode lcg 1 [1, 1, 0, 1] 5 3 = Finished st
         \<and> output_vec st = map func_expensive [1, 10, 1, 0, 6])
   \<and> (\<exists>st. masterCode lcg 1 [0, 0, 1] 5 3 = Finished st
         \<and> output_vec st = map func_expensive [1, 10, 1, 0, 6])"
proof -
  from output_in_input_order [OF lcg_contract, of 5 3 1 "[1, 1, 0, 1]"] lcg_input
  have "\<exists>st. masterCode lcg 1 [1, 1, 0, 1] 5 3 = Finished st
      \<and> output_vec st = map func_expensive [1, 10, 1, 0, 6]"
    by auto
  moreover from output_in_input_order [OF lcg_contract, of 5 3 1 "[0, 0, 1]"] lcg_input
  have "\<exists>st. masterCode lcg 1 [0, 0, 1] 5 3 = Finished st
      \<and> output_vec st = map func_expensive [1, 10, 1, 0, 6]"
    by auto
  ultimately show ?thesis
    using lcg_contract by simp
qed

subsection \<open>No tasks\<close>

lemma inputDataGenerator_zero: "inputDataGenerator distribution g 0 = Some []"
  by (simp add: inputDataGenerator_def new_vector_def generator_loop.simps)

text \<open>
  C6: with \<open>N = 0\<close> and \<open>W = mpiSize - 1 \<ge> 1\<close> workers the run finishes; its trace is
  one termination send to each worker and nothing else, so every worker's mailbox is
  the termination signal alone; \<open>N_activeProc\<close> is 0 and the only loop head is the
  first: the loop body, and with it the receive, never runs.
\<close>

theorem zero_tasks:
  assumes "2 \<le> mpiSize"
  shows "\<exists>st. masterCode distribution g cs 0 mpiSize = Finished st
           \<and> trace st = map Send_Term [1..mpiSize - 1]
           \<and> (\<forall>p. 1 \<le> p \<and> p < mpiSize \<longrightarrow> mailbox (trace st) p = [errValue])
           \<and> N_activeProc st = 0
           \<and> receives (trace st) = 0
           \<and> master_points distribution g cs 0 mpiSize = [st]"
proof -
  from assms have kmax: "min (mpiSize - 1) 0 = 0"
    by simp
  from master_init_result [of 0 mpiSize "[]"] assms kmax obtain st where st:
    "master_init [] 0 mpiSize = Some st" "N_activeProc st = 0"
    "trace st = startup_sends [] 0 mpiSize"
    by auto
  have sends: "startup_sends [] 0 mpiSize = map Send_Term [1..mpiSize - 1]"
    unfolding startup_sends_def by (intro map_cong) simp_all
  have "main_loop [] mpiSize cs st = Finished st"
    using st(2) by (subst main_loop.simps) simp
  moreover have "loop_points [] mpiSize cs st = [st]"
    using st(2) by (subst loop_points.simps) simp
  moreover have "\<forall>p. 1 \<le> p \<and> p < mpiSize \<longrightarrow> mailbox (trace st) p = [errValue]"
    by (simp add: st(3) mailbox_startup)
  moreover have "receives (trace st) = 0"
    by (simp add: st(3) receives_startup)
  ultimately show ?thesis
    using st sends
    by (simp add: masterCode_def master_points_def inputDataGenerator_zero)
qed

theorem zero_tasks_witness:
  "(2::int) \<le> 3
   \<and> masterCode lcg 1 [] 0 3 = Finished
        \<lparr>counter = 0, output_vec = [], inputIdx2proc = [], proc2inputIdx = [0, - 1, - 1],
         N_activeProc = 0, trace = [Send_Term 1, Send_Term 2]\<rparr>
   \<and> length (master_points lcg 1 [] 0 3) = 1"
proof -
  have run: "masterCode lcg 1 [] 0 3 = Finished
        \<lparr>counter = 0, output_vec = [], inputIdx2proc = [], proc2inputIdx = [0, - 1, - 1],
         N_activeProc = 0, trace = [Send_Term 1, Send_Term 2]\<rparr>"
    by code_simp
  from zero_tasks [of 3 lcg 1 "[]"] have "length (master_points lcg 1 [] 0 3) = 1"
    by auto
  with run show ?thesis
    by simp
qed

subsection \<open>More workers than tasks\<close>

lemma excess_pass:
  assumes inv: "master_inv input mpiSize s"
    and q: "1 \<le> q" "q < mpiSize" and slot: "slot s q = Some idx" and idx: "0 \<le> idx"
    and P: "counter s = int (length input) \<and>
       (\<forall>p. 1 \<le> p \<and> p < mpiSize \<longrightarrow>
          mailbox (trace s) p =
            (if p \<le> int (length input)
             then input ! nat (p - 1) # (if slot s p = Some (- 1) then [errValue] else [])
             else [errValue])
          \<and> (int (length input) < p \<longrightarrow> slot s p = Some (- 1)))"
  shows "counter (pass_result input s q idx y) = int (length input) \<and>
       (\<forall>p. 1 \<le> p \<and> p < mpiSize \<longrightarrow>
          mailbox (trace (pass_result input s q idx y)) p =
            (if p \<le> int (length input)
             then input ! nat (p - 1) #
                  (if slot (pass_result input s q idx y) p = Some (- 1) then [errValue] else [])
             else [errValue])
          \<and> (int (length input) < p \<longrightarrow> slot (pass_result input s q idx y) p = Some (- 1)))"
proof -
  from inv have shape: "inv_shape input mpiSize s"
    by (simp add: master_inv_def)
  from q have q0: "0 \<le> q" by simp
  note slot' = slot_pass_result [OF shape q0 q(2)]
  from P have full: "\<not> counter s < int (length input)"
    by simp
  from slot idx have active: "slot s q \<noteq> Some (- 1)"
    by simp
  with P q have q_le: "q \<le> int (length input)"
    by (meson not_le)
  show ?thesis
  proof (intro conjI allI impI)
    show "counter (pass_result input s q idx y) = int (length input)"
      using P full by (simp add: pass_result_fields)
  next
    fix p assume p: "1 \<le> p \<and> p < mpiSize"
    with P have old: "mailbox (trace s) p =
        (if p \<le> int (length input)
         then input ! nat (p - 1) # (if slot s p = Some (- 1) then [errValue] else [])
         else [errValue])"
      by blast
    show "mailbox (trace (pass_result input s q idx y)) p =
        (if p \<le> int (length input)
         then input ! nat (p - 1) #
              (if slot (pass_result input s q idx y) p = Some (- 1) then [errValue] else [])
         else [errValue])"
    proof (cases "p = q")
      case True
      with old active q_le full show ?thesis
        by (simp add: pass_result_fields trace_simps slot')
    next
      case False
      with old full show ?thesis
        by (simp add: pass_result_fields trace_simps slot')
    qed
  next
    fix p assume "1 \<le> p \<and> p < mpiSize" "int (length input) < p"
    with P have "slot s p = Some (- 1)" by blast
    with full show "slot (pass_result input s q idx y) p = Some (- 1)"
      by (simp add: slot')
  qed
qed

text \<open>
  C5: with more workers than tasks, \<open>W = mpiSize - 1 > N\<close>, whatever the order of
  arrival, each of the workers \<open>1, \<dots>, N\<close> is sent one task and then the termination
  signal, and answers the task and leaves its loop; each of the workers above \<open>N\<close> is
  sent the termination signal alone, in the start-up, and leaves its loop without a
  task.
\<close>

theorem excess_workers:
  assumes "dist_contract distribution" and "0 \<le> N" and "N < mpiSize - 1"
  shows "\<exists>input st L. inputDataGenerator distribution g N = Some input
           \<and> masterCode distribution g cs N mpiSize = Finished st
           \<and> trace st = startup_sends input N mpiSize @ L
           \<and> (\<forall>p. 1 \<le> p \<and> p \<le> N \<longrightarrow>
                 mailbox (trace st) p = [input ! nat (p - 1), errValue]
                 \<and> slaveCode p (mailbox (trace st) p) =
                     ([Slave_Recv (input ! nat (p - 1)),
                       Slave_Send (func_expensive (input ! nat (p - 1))),
                       Slave_Recv errValue], True))
           \<and> (\<forall>p. N < p \<and> p < mpiSize \<longrightarrow>
                 mailbox (trace st) p = [errValue]
                 \<and> mailbox (startup_sends input N mpiSize) p = [errValue]
                 \<and> slaveCode p (mailbox (trace st) p) = ([Slave_Recv errValue], True))"
proof -
  from assms(2,3) have size: "2 \<le> mpiSize" and kmax: "min (mpiSize - 1) N = N"
    by simp_all
  from inputDataGenerator_range [OF assms(1,2), of g] obtain input where input:
    "inputDataGenerator distribution g N = Some input" "int (length input) = N"
    "\<forall>x \<in> set input. 0 \<le> x"
    by auto
  from master_init_result [OF assms(2) size input(2,3)] kmax obtain st1 where st1:
    "master_init input N mpiSize = Some st1" "counter st1 = N"
    "trace st1 = startup_sends input N mpiSize"
    "\<forall>p. 1 \<le> p \<and> p < mpiSize \<longrightarrow> slot st1 p = Some (if p \<le> N then p - 1 else - 1)"
    "master_inv input mpiSize st1"
    by auto
  define P where "P = (\<lambda>s. counter s = int (length input) \<and>
       (\<forall>p. 1 \<le> p \<and> p < mpiSize \<longrightarrow>
          mailbox (trace s) p =
            (if p \<le> int (length input)
             then input ! nat (p - 1) # (if slot s p = Some (- 1) then [errValue] else [])
             else [errValue])
          \<and> (int (length input) < p \<longrightarrow> slot s p = Some (- 1))))"
  have "P st1"
    unfolding P_def using st1(2,4) input(2)
    by (auto simp: st1(3) mailbox_startup)
  moreover have "P (pass_result input s q idx (func_expensive (input ! nat idx)))"
    if "master_inv input mpiSize s" "P s" "0 < N_activeProc s" "1 \<le> q" "q < mpiSize"
      "slot s q = Some idx" "0 \<le> idx" "idx < counter s" for s q idx
    using that(2) unfolding P_def by (intro excess_pass [OF that(1,4,5,6,7)])
  ultimately obtain st where st: "main_loop input mpiSize cs st1 = Finished st"
    "master_inv input mpiSize st" "P st" "N_activeProc st = 0"
    using main_loop_invariant [of input mpiSize st1 P cs, OF st1(5)] by blast
  from master_run [OF assms(2) size input(2,3), of cs] st1(1) st(1) kmax obtain L where
    L: "trace st = startup_sends input N mpiSize @ L"
    by auto
  have inactive: "slot st p = Some (- 1)" if "1 \<le> p" "p < mpiSize" for p
    using no_active_slots [OF st(2,4) that] .
  have tasked: "mailbox (trace st) p = [input ! nat (p - 1), errValue]
      \<and> slaveCode p (mailbox (trace st) p) =
          ([Slave_Recv (input ! nat (p - 1)), Slave_Send (func_expensive (input ! nat (p - 1))),
            Slave_Recv errValue], True)"
    if p: "1 \<le> p \<and> p \<le> N" for p
  proof -
    from p assms(3) have worker: "1 \<le> p" "p < mpiSize" by simp_all
    with st(3) inactive [OF worker] p input(2)
    have mail: "mailbox (trace st) p = [input ! nat (p - 1), errValue]"
      unfolding P_def by simp
    from p input(2) have "nat (p - 1) < length input"
      by linarith
    with input(3) have "0 \<le> input ! nat (p - 1)"
      by simp
    with mail show ?thesis
      by (simp add: errValue_def Let_def)
  qed
  have idle: "mailbox (trace st) p = [errValue]
      \<and> mailbox (startup_sends input N mpiSize) p = [errValue]
      \<and> slaveCode p (mailbox (trace st) p) = ([Slave_Recv errValue], True)"
    if p: "N < p \<and> p < mpiSize" for p
  proof -
    from p assms(2) have worker: "1 \<le> p" "p < mpiSize" by simp_all
    with st(3) p input(2) have "mailbox (trace st) p = [errValue]"
      unfolding P_def by simp
    moreover from worker p have "mailbox (startup_sends input N mpiSize) p = [errValue]"
      by (simp add: mailbox_startup)
    ultimately show ?thesis
      by (simp add: errValue_def)
  qed
  from input(1) st1(1) st(1) have "masterCode distribution g cs N mpiSize = Finished st"
    by (simp add: masterCode_def)
  with input(1) L tasked idle show ?thesis
    by blast
qed

theorem excess_workers_witness:
  "dist_contract lcg \<and> (0::int) \<le> 2 \<and> (2::int) < 5 - 1
   \<and> (\<exists>st. masterCode lcg 1 [1] 2 5 = Finished st
         \<and> mailbox (trace st) 1 = [1, - 1] \<and> mailbox (trace st) 2 = [10, - 1]
         \<and> mailbox (trace st) 3 = [- 1] \<and> mailbox (trace st) 4 = [- 1])"
proof -
  have input: "inputDataGenerator lcg 1 2 = Some [1, 10]"
    by code_simp
  from excess_workers [OF lcg_contract, of 2 5 1 "[1]"] input
  obtain st where st: "masterCode lcg 1 [1] 2 5 = Finished st"
    "\<forall>p. 1 \<le> p \<and> p \<le> 2 \<longrightarrow> mailbox (trace st) p = [[1, 10] ! nat (p - 1), errValue]"
    "\<forall>p. 2 < p \<and> p < 5 \<longrightarrow> mailbox (trace st) p = [errValue]"
    by auto
  from st(2) have "mailbox (trace st) 1 = [1, - 1]" "mailbox (trace st) 2 = [10, - 1]"
    by (simp_all add: errValue_def)
  moreover from st(3) have "mailbox (trace st) 3 = [- 1]" "mailbox (trace st) 4 = [- 1]"
    by (simp_all add: errValue_def)
  ultimately show ?thesis
    using st(1) lcg_contract by auto
qed

subsection \<open>The count of active workers\<close>






lemma loop_body_after_decrement:
  assumes "before_decrement input st procNr y = Some mid"
  shows "loop_body input st procNr y = Some (mid\<lparr>N_activeProc := N_activeProc mid - 1\<rparr>)"
proof -
  from assms obtain idx out p2i where parts:
    "vec_get (proc2inputIdx st) procNr = Some idx" "vec_set (output_vec st) idx y = Some out"
    "\<not> (0 \<le> counter st \<and> counter st < int (length input))"
    "vec_set (proc2inputIdx st) procNr (- 1) = Some p2i"
    "mid = st\<lparr>output_vec := out, trace := trace st @ [Recv procNr y, Send_Term procNr],
        proc2inputIdx := p2i\<rparr>"
    by (auto simp: before_decrement_def split: Option.bind_splits if_splits)
  then have no_task: "(0 \<le> counter st \<and> counter st < int (length input)) = False"
    by simp
  from parts(1,2,4,5) show ?thesis
    by (simp add: loop_body_def no_task)
qed




subsection \<open>A result from a rank without a task\<close>

text \<open>
  C2, as the code has it: the loop body does not check who sent a result. When the
  entry of \<open>proc2inputIdx\<close> for the sender is an index of \<open>output\<close>, the value is stored
  there and the dispatch goes on as after any result: the next task to the sender if
  one is left, otherwise the termination signal and the decrement. When the entry is
  \<open>-1\<close> the write \<^verbatim>\<open>output[-1]\<close> is outside the vector, which C++ leaves undefined:
  the model has no result there.
\<close>

theorem sender_not_checked:
  "(vec_get (proc2inputIdx st) procNr = Some idx \<and> 0 \<le> idx \<and> idx < int (length (output_vec st))
      \<and> length (inputIdx2proc st) = length input \<longrightarrow>
      (\<exists>st'. loop_body input st procNr y = Some st'
         \<and> output_vec st' = (output_vec st)[nat idx := y]
         \<and> (if 0 \<le> counter st \<and> counter st < int (length input)
             then trace st' = trace st @ [Recv procNr y,
                      Send_Task procNr (counter st) (input ! nat (counter st))]
                \<and> counter st' = counter st + 1 \<and> N_activeProc st' = N_activeProc st
             else trace st' = trace st @ [Recv procNr y, Send_Term procNr]
                \<and> counter st' = counter st \<and> N_activeProc st' = N_activeProc st - 1)))
   \<and> (vec_get (proc2inputIdx st) procNr = Some (- 1) \<longrightarrow> loop_body input st procNr y = None)"
proof (intro conjI impI)
  assume a: "vec_get (proc2inputIdx st) procNr = Some idx \<and> 0 \<le> idx
      \<and> idx < int (length (output_vec st)) \<and> length (inputIdx2proc st) = length input"
  then have proc: "0 \<le> procNr" "procNr < int (length (proc2inputIdx st))"
    by (auto dest: vec_get_SomeD)
  from a have out: "vec_set (output_vec st) idx y = Some ((output_vec st)[nat idx := y])"
    by (simp add: vec_set_def)
  from proc have set_slot: "vec_set (proc2inputIdx st) procNr v = Some ((proc2inputIdx st)[nat procNr := v])" for v
    by (simp add: vec_set_def)
  show "\<exists>st'. loop_body input st procNr y = Some st'
         \<and> output_vec st' = (output_vec st)[nat idx := y]
         \<and> (if 0 \<le> counter st \<and> counter st < int (length input)
             then trace st' = trace st @ [Recv procNr y,
                      Send_Task procNr (counter st) (input ! nat (counter st))]
                \<and> counter st' = counter st + 1 \<and> N_activeProc st' = N_activeProc st
             else trace st' = trace st @ [Recv procNr y, Send_Term procNr]
                \<and> counter st' = counter st \<and> N_activeProc st' = N_activeProc st - 1)"
  proof (cases "0 \<le> counter st \<and> counter st < int (length input)")
    case True
    with a have "vec_get input (counter st) = Some (input ! nat (counter st))"
      and "vec_set (inputIdx2proc st) (counter st) procNr = Some ((inputIdx2proc st)[nat (counter st) := procNr])"
      by (simp_all add: vec_get_def vec_set_def)
    with True a out set_slot show ?thesis
      by (simp add: loop_body_def)
  next
    case False
    then have no_task: "(0 \<le> counter st \<and> counter st < int (length input)) = False"
      by simp
    from a out set_slot show ?thesis
      by (simp add: loop_body_def no_task)
  qed
next
  assume "vec_get (proc2inputIdx st) procNr = Some (- 1)"
  then show "loop_body input st procNr y = None"
    by (simp add: loop_body_def vec_set_def)
qed

theorem sender_not_checked_witness:
  "master_init [1] 1 2 = Some \<lparr>counter = 1, output_vec = [0], inputIdx2proc = [1],
       proc2inputIdx = [0, 0], N_activeProc = 1, trace = [Send_Task 1 0 1]\<rparr>
   \<and> (\<exists>st'. loop_body [1] \<lparr>counter = 1, output_vec = [0], inputIdx2proc = [1],
              proc2inputIdx = [0, 0], N_activeProc = 1, trace = [Send_Task 1 0 1]\<rparr> 0 7 = Some st'
         \<and> output_vec st' = [7]
         \<and> trace st' = [Send_Task 1 0 1, Recv 0 7, Send_Term 0]
         \<and> N_activeProc st' = 0)
   \<and> loop_body [1] \<lparr>counter = 1, output_vec = [0], inputIdx2proc = [1],
        proc2inputIdx = [0, 0, - 1], N_activeProc = 1,
        trace = [Send_Task 1 0 1, Send_Term 2]\<rparr> 2 7 = None"
proof -
  let ?st = "\<lparr>counter = 1, output_vec = [0], inputIdx2proc = [1],
       proc2inputIdx = [0, 0], N_activeProc = 1, trace = [Send_Task 1 0 1]\<rparr>"
  let ?st2 = "\<lparr>counter = 1, output_vec = [0], inputIdx2proc = [1],
        proc2inputIdx = [0, 0, - 1], N_activeProc = 1,
        trace = [Send_Task 1 0 1, Send_Term 2]\<rparr>"
  have init: "master_init [1] 1 2 = Some ?st"
    by code_simp
  from sender_not_checked [of ?st 0 0 "[1]" 7]
  have "\<exists>st'. loop_body [1] ?st 0 7 = Some st' \<and> output_vec st' = [7]
         \<and> trace st' = [Send_Task 1 0 1, Recv 0 7, Send_Term 0] \<and> N_activeProc st' = 0"
    by (auto simp: vec_get_def)
  moreover have "vec_get (proc2inputIdx ?st2) 2 = Some (- 1)"
    by (simp add: vec_get_def)
  with sender_not_checked [of ?st2 2 0 "[1]" 7] have "loop_body [1] ?st2 2 7 = None"
    by blast
  ultimately show ?thesis
    using init by blast
qed

text \<open>
  C2 as stated fails: after the start-up for one task and one worker, a result that
  comes from rank 0, which was never assigned a task, is stored at \<open>output[0]\<close> and
  answered with the termination signal; the run goes on and ends as usual.
\<close>

theorem abort_on_unassigned_sender_counterexample:
  "master_init [1] 1 2 = Some \<lparr>counter = 1, output_vec = [0], inputIdx2proc = [1],
       proc2inputIdx = [0, 0], N_activeProc = 1, trace = [Send_Task 1 0 1]\<rparr>
   \<and> loop_body [1] \<lparr>counter = 1, output_vec = [0], inputIdx2proc = [1],
        proc2inputIdx = [0, 0], N_activeProc = 1, trace = [Send_Task 1 0 1]\<rparr> 0 7
      = Some \<lparr>counter = 1, output_vec = [7], inputIdx2proc = [1],
          proc2inputIdx = [- 1, 0], N_activeProc = 0,
          trace = [Send_Task 1 0 1, Recv 0 7, Send_Term 0]\<rparr>"
  by code_simp

subsection \<open>The inputs that are dispatched\<close>

lemma task_index_of_send: "Send_Task d i x \<in> set tr \<Longrightarrow> i \<in> set (task_indices tr)"
  by (force simp: task_indices_def)

text \<open>
  C9: with a distribution that keeps the bounds it was built with, every element of the
  vector \<open>inputDataGenerator\<close> returns lies between 0 and 10, and so does every value
  that a run of \<open>masterCode\<close> sends as a task, whatever the number of workers and the
  order of arrival. A worker that receives such a value computes and answers; the
  termination value \<open>errValue\<close> is \<open>-1\<close>, and a worker that receives it leaves its loop.
\<close>

theorem generated_inputs_are_tasks:
  assumes "dist_contract distribution"
    and "inputDataGenerator distribution g N = Some input"
  shows "(\<forall>x \<in> set input. 0 \<le> x \<and> x \<le> 10)
         \<and> (\<forall>x \<in> set input. \<forall>rank xs. slaveCode rank (x # xs) =
               (Slave_Recv x # Slave_Send (func_expensive x) # fst (slaveCode rank xs),
                snd (slaveCode rank xs)))
         \<and> errValue = - 1
         \<and> (\<forall>rank xs. slaveCode rank (errValue # xs) = ([Slave_Recv errValue], True))
         \<and> (\<forall>mpiSize cs. 2 \<le> mpiSize \<longrightarrow>
               (\<exists>st. masterCode distribution g cs N mpiSize = Finished st
                  \<and> (\<forall>d i x. Send_Task d i x \<in> set (trace st) \<longrightarrow> 0 \<le> x \<and> x \<le> 10)))"
proof -
  have N: "0 \<le> N"
  proof (rule ccontr)
    assume "\<not> 0 \<le> N"
    then have "inputDataGenerator distribution g N = None"
      by (simp add: inputDataGenerator_negative)
    with assms(2) show False by simp
  qed
  from inputDataGenerator_range [OF assms(1) N, of g] assms(2)
  have len: "int (length input) = N" and range: "\<forall>x \<in> set input. 0 \<le> x \<and> x \<le> 10"
    by simp_all
  then have nonneg: "\<forall>x \<in> set input. 0 \<le> x"
    by simp
  from range have tasks: "\<forall>x \<in> set input. \<forall>rank xs. slaveCode rank (x # xs) =
               (Slave_Recv x # Slave_Send (func_expensive x) # fst (slaveCode rank xs),
                snd (slaveCode rank xs))"
    using slaveCode_Cons_task by blast
  have "\<exists>st. masterCode distribution g cs N mpiSize = Finished st
      \<and> (\<forall>d i x. Send_Task d i x \<in> set (trace st) \<longrightarrow> 0 \<le> x \<and> x \<le> 10)"
    if size: "2 \<le> mpiSize" for mpiSize cs
  proof -
    from master_run [OF N size len nonneg, of cs] obtain st1 st where run:
      "master_init input N mpiSize = Some st1" "main_loop input mpiSize cs st1 = Finished st"
      "task_indices (trace st) = [0..N - 1]"
      "\<forall>d i x. Send_Task d i x \<in> set (trace st) \<longrightarrow> 1 \<le> d \<and> d < mpiSize \<and> x = input ! nat i"
      by blast
    have "0 \<le> x \<and> x \<le> 10" if send: "Send_Task d i x \<in> set (trace st)" for d i x
    proof -
      from task_index_of_send [OF send] run(3) have "0 \<le> i" "i < N"
        by simp_all
      with len have "nat i < length input"
        by linarith
      with range have "0 \<le> input ! nat i \<and> input ! nat i \<le> 10"
        by simp
      with run(4) send show ?thesis
        by blast
    qed
    moreover from assms(2) run(1,2) have "masterCode distribution g cs N mpiSize = Finished st"
      by (simp add: masterCode_def)
    ultimately show ?thesis
      by blast
  qed
  with range tasks show ?thesis
    by (simp add: errValue_def)
qed

theorem generated_inputs_are_tasks_witness:
  "dist_contract lcg \<and> inputDataGenerator lcg 1 5 = Some [1, 10, 1, 0, 6]
   \<and> list_all (\<lambda>x. 0 \<le> x \<and> x \<le> 10) [1, 10, 1, 0, 6 :: int]
   \<and> slaveCode 2 [10, errValue] = ([Slave_Recv 10, Slave_Send 11, Slave_Recv (- 1)], True)
   \<and> (\<exists>st. masterCode lcg 1 [1, 1, 0, 1] 5 3 = Finished st
         \<and> (\<forall>d i x. Send_Task d i x \<in> set (trace st) \<longrightarrow> 0 \<le> x \<and> x \<le> 10))"
proof -
  note inst = generated_inputs_are_tasks [OF lcg_contract lcg_input]
  note sends = inst [THEN conjunct2, THEN conjunct2, THEN conjunct2, THEN conjunct2]
  have "\<exists>st. masterCode lcg 1 [1, 1, 0, 1] 5 3 = Finished st
      \<and> (\<forall>d i x. Send_Task d i x \<in> set (trace st) \<longrightarrow> 0 \<le> x \<and> x \<le> 10)"
    by (rule sends [rule_format, of 3 "[1, 1, 0, 1]"]) simp
  with inst lcg_contract lcg_input show ?thesis
    by (simp add: func_expensive_def func_cheap_def wrap32_def)
qed

end
